theory Spec2Isabelle
  imports Main "HOL-Library.AList" "HOL-Library.Multiset"
begin

section \<open>Artifact model (types.ts)\<close>

text \<open>
  A versioned artifact of the workspace is a JavaScript object
  \<^verbatim>\<open>{ id, history, ...rest }\<close>. The model keeps the identifier, the remaining fields
  (\<open>content\<close>, the object the source calls \<^verbatim>\<open>rest\<close>) and the history apart. For
  controllers, routes and middleware the remaining fields are exactly \<^verbatim>\<open>name\<close> and
  \<^verbatim>\<open>code\<close>. Timestamps are the integers read from \<^verbatim>\<open>Date.now()\<close>.
\<close>

record payload =
  name :: string
  code :: string

text \<open>
  An item of a generated batch. Its declared type is \<^verbatim>\<open>Omit<T, 'id' | 'history'>\<close>,
  a name and a code; the objects that \<^verbatim>\<open>generateControllers\<close>,
  \<^verbatim>\<open>generateRoutes\<close> and \<^verbatim>\<open>generateMiddlewares\<close> return, and that the callers
  pass on, also have an \<^verbatim>\<open>id\<close> and an empty \<^verbatim>\<open>history\<close>. \<open>item_id\<close> is the
  \<^verbatim>\<open>id\<close> property when the object has one. The \<^verbatim>\<open>history\<close> property never
  reaches a result: every object built from a batch item sets \<^verbatim>\<open>history\<close> after the
  spread.
\<close>

record batch_item = payload +
  item_id :: "string option"

definition fields_of :: "batch_item \<Rightarrow> payload" where
  "fields_of b = \<lparr>name = name b, code = code b\<rparr>"

record 'c history_entry =
  timestamp :: int
  data :: 'c
  message :: "string option"

record 'c artifact =
  ident :: string
  content :: 'c
  history :: "'c history_entry list"

text \<open>The natural key of an artifact is its name.\<close>

abbreviation key :: "('a payload_scheme, 'b) artifact_scheme \<Rightarrow> string" where
  "key a \<equiv> name (content a)"

text \<open>
  \<^verbatim>\<open>Date.now()\<close> is an input of every operation. One call of an operation may read
  the clock several times; \<open>clock k\<close> is the value of the \<open>k\<close>-th reading of that call.
\<close>

type_synonym clock = "nat \<Rightarrow> int"

subsection \<open>Numbers in template literals\<close>

definition digit_char :: "nat \<Rightarrow> char" where
  "digit_char d = char_of (of_char (CHR ''0'') + d)"

fun digits :: "nat \<Rightarrow> string" where
  "digits n = (if n < 10 then [digit_char n] else digits (n div 10) @ [digit_char (n mod 10)])"

declare digits.simps [simp del]

text \<open>The decimal text JavaScript gives an integer inside a template literal.\<close>

definition number_to_string :: "int \<Rightarrow> string" where
  "number_to_string i = (if i < 0 then CHR ''-'' # digits (nat (- i)) else digits (nat i))"

section \<open>Reconciliation (App.tsx, smartUpdate)\<close>

text \<open>
  A JavaScript \<^verbatim>\<open>Map\<close> keeps its keys in insertion order, and setting a key that is
  already present replaces the value where the key stands. It is an association list
  with \<^const>\<open>AList.update\<close>, \<^const>\<open>map_of\<close> and \<^const>\<open>AList.delete\<close>.
\<close>

definition new_Map :: "('k \<times> 'v) list \<Rightarrow> ('k \<times> 'v) list" where
  "new_Map entries = foldl (\<lambda>m (k, v). AList.update k v m) [] entries"

text \<open>
  The object \<^verbatim>\<open>{ ...existingItem, ...newItemData, history: [...] }\<close> takes every
  property of the batch item: name and code, and the \<^verbatim>\<open>id\<close> when the item has one.
\<close>

definition spread_id :: "payload artifact \<Rightarrow> batch_item \<Rightarrow> string" where
  "spread_id existingItem newItemData =
     (case item_id newItemData of Some i \<Rightarrow> i | None \<Rightarrow> ident existingItem)"

text \<open>
  The first \<^verbatim>\<open>forEach\<close>: the state is the map of batch items still to be handled,
  the items pushed so far and the number of clock readings taken.
\<close>

fun update_existing ::
  "clock \<Rightarrow> payload artifact list
     \<Rightarrow> (string \<times> batch_item) list \<times> payload artifact list \<times> nat
     \<Rightarrow> (string \<times> batch_item) list \<times> payload artifact list \<times> nat" where
  "update_existing clk [] st = st"
| "update_existing clk (existingItem # others) (newItemsMap, finalItems, n) =
     (case map_of newItemsMap (name (content existingItem)) of
        None \<Rightarrow> update_existing clk others (newItemsMap, finalItems, n)
      | Some newItemData \<Rightarrow>
          if code (content existingItem) \<noteq> code newItemData
          then update_existing clk others
                 (AList.delete (name (content existingItem)) newItemsMap,
                  finalItems @
                    [\<lparr>ident = spread_id existingItem newItemData,
                      content = fields_of newItemData,
                      history =
                        \<lparr>timestamp = clk n, data = content existingItem,
                         message = Some ''Auto-saved on generation''\<rparr> # history existingItem\<rparr>],
                  Suc n)
          else update_existing clk others
                 (AList.delete (name (content existingItem)) newItemsMap,
                  finalItems @ [existingItem], n))"

text \<open>The second \<^verbatim>\<open>forEach\<close>, over the entries left in the map.\<close>

fun add_new ::
  "clock \<Rightarrow> (string \<times> batch_item) list \<Rightarrow> payload artifact list \<times> nat
     \<Rightarrow> payload artifact list \<times> nat" where
  "add_new clk [] st = st"
| "add_new clk ((k, newItemData) # others) (finalItems, n) =
     add_new clk others
       (finalItems @
          [\<lparr>ident = name newItemData @ ''-'' @ number_to_string (clk n),
            content = fields_of newItemData, history = []\<rparr>],
        Suc n)"

definition smartUpdate ::
  "clock \<Rightarrow> payload artifact list \<Rightarrow> batch_item list \<Rightarrow> payload artifact list" where
  "smartUpdate clk existingItems newItems =
     (case update_existing clk existingItems
             (new_Map (map (\<lambda>item. (name item, item)) newItems), [], 0) of
        (newItemsMap, finalItems, n) \<Rightarrow> fst (add_new clk newItemsMap (finalItems, n)))"

subsection \<open>Reconciliation in the words of the specification\<close>

text \<open>
  Later batch items with the same key overwrite earlier ones; the keys of the batch are
  taken in the order of their first occurrence.
\<close>

definition batch_lookup :: "batch_item list \<Rightarrow> string \<Rightarrow> batch_item option" where
  "batch_lookup newItems k = find (\<lambda>item. name item = k) (rev newItems)"

definition batch_keys :: "batch_item list \<Rightarrow> string list" where
  "batch_keys newItems = rev (remdups (rev (map name newItems)))"

text \<open>
  An update replaces the content and records the content it replaces. In the
  specification the identifier is assigned once and never reassigned: there \<open>idf\<close> is
  \<open>kept_id\<close>. In the source the identifier is \<open>spread_id\<close>.
\<close>

definition kept_id :: "payload artifact \<Rightarrow> batch_item \<Rightarrow> string" where
  "kept_id a b = ident a"

definition updated ::
  "(payload artifact \<Rightarrow> batch_item \<Rightarrow> string) \<Rightarrow> int \<Rightarrow> payload artifact \<Rightarrow> batch_item
     \<Rightarrow> payload artifact" where
  "updated idf t a b =
     \<lparr>ident = idf a b, content = fields_of b,
      history =
        \<lparr>timestamp = t, data = content a, message = Some ''Auto-saved on generation''\<rparr>
          # history a\<rparr>"

text \<open>
  The existing artifacts whose key is in the batch, in their prior order: unchanged when
  the batch content equals the current content, updated otherwise. \<open>n\<close> counts the
  clock readings taken so far.
\<close>

fun reconcile_matched ::
  "(payload artifact \<Rightarrow> batch_item \<Rightarrow> string) \<Rightarrow> clock \<Rightarrow> nat
     \<Rightarrow> (string \<Rightarrow> batch_item option) \<Rightarrow> payload artifact list
     \<Rightarrow> payload artifact list" where
  "reconcile_matched idf clk n batch [] = []"
| "reconcile_matched idf clk n batch (a # as) =
     (case batch (name (content a)) of
        None \<Rightarrow> reconcile_matched idf clk n batch as
      | Some b \<Rightarrow>
          if fields_of b = content a then a # reconcile_matched idf clk n batch as
          else updated idf (clk n) a b # reconcile_matched idf clk (Suc n) batch as)"

definition changed_count ::
  "(string \<Rightarrow> batch_item option) \<Rightarrow> payload artifact list \<Rightarrow> nat" where
  "changed_count batch as =
     length (filter (\<lambda>a. case batch (name (content a)) of
                               None \<Rightarrow> False | Some b \<Rightarrow> fields_of b \<noteq> content a) as)"

text \<open>A brand-new artifact: an identifier made from name and clock, no history.\<close>

definition brand_new :: "clock \<Rightarrow> nat \<Rightarrow> batch_item list \<Rightarrow> payload artifact list" where
  "brand_new clk n items =
     map (\<lambda>(i, b). \<lparr>ident = name b @ ''-'' @ number_to_string (clk i),
                     content = fields_of b, history = []\<rparr>)
       (enumerate n items)"

definition unconsumed :: "payload artifact list \<Rightarrow> batch_item list \<Rightarrow> batch_item list" where
  "unconsumed existing newItems =
     List.map_filter (batch_lookup newItems)
       (filter (\<lambda>k. k \<notin> set (map (\<lambda>a. name (content a)) existing)) (batch_keys newItems))"

definition reconcile_with ::
  "(payload artifact \<Rightarrow> batch_item \<Rightarrow> string) \<Rightarrow> clock \<Rightarrow> payload artifact list
     \<Rightarrow> batch_item list \<Rightarrow> payload artifact list" where
  "reconcile_with idf clk existing newItems =
     reconcile_matched idf clk 0 (batch_lookup newItems) existing @
     brand_new clk (changed_count (batch_lookup newItems) existing)
       (unconsumed existing newItems)"

definition reconcile_spec ::
  "clock \<Rightarrow> payload artifact list \<Rightarrow> batch_item list \<Rightarrow> payload artifact list" where
  "reconcile_spec clk existing newItems = reconcile_with kept_id clk existing newItems"

text \<open>The first artifact of every name, in order.\<close>

fun first_by_name :: "payload artifact list \<Rightarrow> payload artifact list" where
  "first_by_name [] = []"
| "first_by_name (a # as) =
     a # first_by_name (filter (\<lambda>b. name (content b) \<noteq> name (content a)) as)"

text \<open>Every entry of a batch map carries its own name as key.\<close>

definition keyed :: "(string \<times> batch_item) list \<Rightarrow> bool" where
  "keyed m = list_all (\<lambda>(k, b). name b = k) m"

section \<open>Commit and revert (App.tsx)\<close>

datatype toast_type = Success | Error

type_synonym toast = "toast_type \<times> string"

text \<open>
  The callback of \<^verbatim>\<open>items.map\<close> in \<^verbatim>\<open>handleCommit\<close>. The source compares
  \<^verbatim>\<open>JSON.stringify(history[0].data)\<close> with \<^verbatim>\<open>JSON.stringify(rest)\<close>; both objects
  are the remaining fields of the same artifact at two moments, with the same keys in
  the same order, so the two texts are equal exactly when the contents are.
\<close>

definition commit_item :: "int \<Rightarrow> string \<Rightarrow> 'c artifact \<Rightarrow> 'c artifact" where
  "commit_item t msg item =
     (case history item of
        h # _ \<Rightarrow>
          if data h = content item then item
          else item\<lparr>history :=
                 \<lparr>timestamp = t, data = content item,
                  message = (if msg = [] then None else Some msg)\<rparr> # history item\<rparr>
      | [] \<Rightarrow>
          item\<lparr>history :=
            \<lparr>timestamp = t, data = content item,
             message = (if msg = [] then None else Some msg)\<rparr> # history item\<rparr>)"

text \<open>\<^verbatim>\<open>handleCommit\<close>: the new collection and the toast shown.\<close>

definition handleCommit :: "clock \<Rightarrow> string \<Rightarrow> 'c artifact list \<Rightarrow> 'c artifact list \<times> toast" where
  "handleCommit clk msg items =
     (if length items = 0 then (items, (Error, ''Nothing to commit.''))
      else (map (commit_item (clk 0) msg) items,
            (Success, ''Committed '' @ number_to_string (int (length items)) @ '' item(s).'')))"

text \<open>
  The callback of \<^verbatim>\<open>prevItems.map\<close> in \<^verbatim>\<open>revertItem\<close>, with the number of clock
  readings taken so far.
\<close>

fun revert_items :: "clock \<Rightarrow> string \<Rightarrow> int \<Rightarrow> nat \<Rightarrow> 'c artifact list \<Rightarrow> 'c artifact list" where
  "revert_items clk i t n [] = []"
| "revert_items clk i t n (item # items) =
     (if ident item = i then
        (case find (\<lambda>h. timestamp h = t) (history item) of
           None \<Rightarrow> item # revert_items clk i t n items
         | Some historyEntry \<Rightarrow>
             \<lparr>ident = ident item, content = data historyEntry,
              history =
                \<lparr>timestamp = clk n, data = content item, message = Some ''Reverted''\<rparr>
                  # filter (\<lambda>h. timestamp h \<noteq> t) (history item)\<rparr>
               # revert_items clk i t (Suc n) items)
      else item # revert_items clk i t n items)"

definition revertItem ::
  "clock \<Rightarrow> string \<Rightarrow> int \<Rightarrow> 'c artifact list \<Rightarrow> 'c artifact list \<times> toast" where
  "revertItem clk i t prevItems =
     (revert_items clk i t 0 prevItems, (Success, ''Item reverted successfully!''))"

text \<open>The top history entry holds the current content.\<close>

definition committed :: "'c artifact \<Rightarrow> bool" where
  "committed a = (case history a of [] \<Rightarrow> False | h # _ \<Rightarrow> data h = content a)"

subsection \<open>Sequences of operations on one collection\<close>

datatype op =
  Commit clock string
| Reconcile clock "batch_item list"
| Revert clock string int


fun step :: "payload artifact list \<Rightarrow> op \<Rightarrow> payload artifact list" where
  "step items (Commit clk msg) = fst (handleCommit clk msg items)"
| "step items (Reconcile clk newItems) = smartUpdate clk items newItems"
| "step items (Revert clk i t) = fst (revertItem clk i t items)"

definition run :: "op list \<Rightarrow> payload artifact list \<Rightarrow> payload artifact list" where
  "run ops items = foldl step items ops"






section \<open>Strings as the source uses them\<close>

text \<open>
  Characters are bytes here; the case conversions of JavaScript are modelled on the
  ASCII letters.
\<close>

definition lower_char :: "char \<Rightarrow> char" where
  "lower_char c =
     (if 65 \<le> (of_char c :: nat) \<and> (of_char c :: nat) \<le> 90
      then char_of ((of_char c :: nat) + 32) else c)"

definition upper_char :: "char \<Rightarrow> char" where
  "upper_char c =
     (if 97 \<le> (of_char c :: nat) \<and> (of_char c :: nat) \<le> 122
      then char_of ((of_char c :: nat) - 32) else c)"

definition toLowerCase :: "string \<Rightarrow> string" where
  "toLowerCase s = map lower_char s"

definition toUpperCase :: "string \<Rightarrow> string" where
  "toUpperCase s = map upper_char s"

text \<open>\<^verbatim>\<open>s.split(sep)\<close> for a separator of one character.\<close>

fun split_on :: "char \<Rightarrow> string \<Rightarrow> string list" where
  "split_on sep [] = [[]]"
| "split_on sep (c # cs) =
     (if c = sep then [] # split_on sep cs
      else (case split_on sep cs of
              seg # segs \<Rightarrow> (c # seg) # segs
            | [] \<Rightarrow> [[c]]))"

definition startsWith :: "string \<Rightarrow> string \<Rightarrow> bool" where
  "startsWith s p = (take (length p) s = p)"

definition endsWith :: "string \<Rightarrow> string \<Rightarrow> bool" where
  "endsWith s p = (length p \<le> length s \<and> drop (length s - length p) s = p)"

text \<open>\<^verbatim>\<open>s.slice(0, -k)\<close>.\<close>

definition slice_end :: "string \<Rightarrow> nat \<Rightarrow> string" where
  "slice_end s k = take (length s - k) s"

text \<open>\<^verbatim>\<open>s.includes(sub)\<close>.\<close>

fun includes_str :: "string \<Rightarrow> string \<Rightarrow> bool" where
  "includes_str [] sub = (sub = [])"
| "includes_str (c # cs) sub = (startsWith (c # cs) sub \<or> includes_str cs sub)"

text \<open>\<^verbatim>\<open>s.charAt(0).toLowerCase() + s.slice(1)\<close>.\<close>

definition lowerFirst :: "string \<Rightarrow> string" where
  "lowerFirst s = (case s of [] \<Rightarrow> [] | c # cs \<Rightarrow> lower_char c # cs)"

section \<open>Handler groups (geminiService.ts, generateControllers)\<close>

record model_payload = payload +
  model_fields :: "(string \<times> string) list"

record api_payload = payload +
  endpoint :: string
  http_method :: string
  description :: string
  requestBodyExample :: "string option"
  responseBodyExample :: "string option"

type_synonym model = "model_payload artifact"

type_synonym api = "api_payload artifact"

definition getBaseNameFromEndpoint :: "string \<Rightarrow> string option" where
  "getBaseNameFromEndpoint ep =
     (case filter (\<lambda>p. p \<noteq> [] \<and> p \<noteq> ''api'' \<and> \<not> startsWith p '':'') (split_on (CHR ''/'') ep) of
        [] \<Rightarrow> None
      | part # _ \<Rightarrow>
          Some (if endsWith part ''ies'' then slice_end part 3 @ ''y''
                else if endsWith part ''s'' then slice_end part 1
                else part))"

text \<open>
  The two strategies and the default of the grouping loop. An empty string counts as
  absent in the tests \<^verbatim>\<open>if (baseName)\<close> and \<^verbatim>\<open>if (!controllerFileBaseName)\<close>.
\<close>

definition strategy1 :: "model list \<Rightarrow> api \<Rightarrow> string option" where
  "strategy1 models a =
     (case getBaseNameFromEndpoint (endpoint (content a)) of
        None \<Rightarrow> None
      | Some baseName \<Rightarrow>
          if baseName = [] then None
          else (case find (\<lambda>m. toLowerCase (name (content m)) = baseName) models of
                  None \<Rightarrow> None
                | Some modelMatch \<Rightarrow> Some (lowerFirst (name (content modelMatch)))))"

definition strategy2 :: "model list \<Rightarrow> api \<Rightarrow> string option" where
  "strategy2 models a =
     (case find (\<lambda>m. includes_str (toLowerCase (name (content a))) (toLowerCase (name (content m))))
             models of
        None \<Rightarrow> None
      | Some m \<Rightarrow> Some (lowerFirst (name (content m))))"

definition controllerFileBaseName :: "model list \<Rightarrow> api \<Rightarrow> string" where
  "controllerFileBaseName models a =
     (let s1 = (case strategy1 models a of Some b \<Rightarrow> if b = [] then None else Some b
                | None \<Rightarrow> None);
          s2 = (case s1 of Some b \<Rightarrow> Some b | None \<Rightarrow> strategy2 models a)
      in case s2 of Some b \<Rightarrow> if b = [] then ''general'' else b | None \<Rightarrow> ''general'')"

definition controllerName :: "model list \<Rightarrow> api \<Rightarrow> string" where
  "controllerName models a = controllerFileBaseName models a @ ''Controller.js''"

text \<open>
  The singularisation in the words of the specification: \<open>ies\<close> becomes \<open>y\<close>; a
  final \<open>s\<close> that does not follow another \<open>s\<close> is dropped; anything else stays.
\<close>

definition singular_spec :: "string \<Rightarrow> string" where
  "singular_spec w =
     (if endsWith w ''ies'' then slice_end w 3 @ ''y''
      else if endsWith w ''s'' \<and> \<not> endsWith w ''ss'' then slice_end w 1
      else w)"

section \<open>Endpoint collections (ApisWindow.tsx)\<close>

record api_collection =
  coll_id :: string
  coll_name :: string
  apis :: "api list"


record confirmation =
  isOpen :: bool
  collectionId :: "string option"
  collectionName :: "string option"

text \<open>The state of the window that the collection handlers read and write.\<close>

record apis_window =
  apiCollections :: "api_collection list"
  activeCollectionId :: "string option"
  renamingCollectionId :: "string option"
  collectionConfirmationState :: confirmation

definition handleRenameCollection :: "string \<Rightarrow> string \<Rightarrow> apis_window \<Rightarrow> apis_window" where
  "handleRenameCollection i newName st =
     st\<lparr>apiCollections :=
          map (\<lambda>c. if coll_id c = i
                    then c\<lparr>coll_name := (if newName = [] then ''Untitled'' else newName)\<rparr>
                    else c)
            (apiCollections st),
        renamingCollectionId := None\<rparr>"






definition allApis :: "api_collection list \<Rightarrow> api list" where
  "allApis cs = concat (map apis cs)"

section \<open>Dependency graph: routers to endpoints (Visualizer.tsx)\<close>

datatype node_type = ModelNode | ControllerNode | RouteNode | MiddlewareNode | ApiNode

text \<open>A node as it is when the edges are computed; the layout sets the position later.\<close>

record graph_node =
  node_id :: string
  node_type :: node_type
  label :: string

record graph_edge =
  edge_id :: string
  source :: string
  target :: string

text \<open>
  The regular expression
  \<^verbatim>\<open>/router\.(get|post|put|delete|patch)\(['"`](.*?)['"`]/g\<close>.
  The lazy group takes the characters up to the next quote character and cannot cross
  a line end; the result is the group and the number of characters used, closing quote
  included.
\<close>

definition is_quote :: "char \<Rightarrow> bool" where
  "is_quote c = (c = CHR 0x27 \<or> c = CHR 0x22 \<or> c = CHR 0x60)"

definition line_terminator :: "char \<Rightarrow> bool" where
  "line_terminator c = (c = CHR 0x0A \<or> c = CHR 0x0D)"

fun lazy_to_quote :: "string \<Rightarrow> (string \<times> nat) option" where
  "lazy_to_quote [] = None"
| "lazy_to_quote (c # cs) =
     (if is_quote c then Some ([], 1)
      else if line_terminator c then None
      else (case lazy_to_quote cs of
              None \<Rightarrow> None
            | Some (g, k) \<Rightarrow> Some (c # g, Suc k)))"

definition route_verbs :: "string list" where
  "route_verbs = [''get'', ''post'', ''put'', ''delete'', ''patch'']"

text \<open>The alternatives of a group are tried in order.\<close>

fun first_some :: "('a \<Rightarrow> 'b option) \<Rightarrow> 'a list \<Rightarrow> 'b option" where
  "first_some f [] = None"
| "first_some f (x # xs) = (case f x of Some y \<Rightarrow> Some y | None \<Rightarrow> first_some f xs)"

text \<open>A match that starts at the first character: verb, path and length of the match.\<close>

definition match_route_at :: "string \<Rightarrow> (string \<times> string \<times> nat) option" where
  "match_route_at s =
     (if startsWith s ''router.'' then
        first_some
          (\<lambda>verb.
             if startsWith (drop 7 s) verb then
               (case drop (7 + length verb) s of
                  p # q # r \<Rightarrow>
                    if p = CHR ''('' \<and> is_quote q then
                      (case lazy_to_quote r of
                         None \<Rightarrow> None
                       | Some (path, k) \<Rightarrow> Some (verb, path, 7 + length verb + 2 + k))
                    else None
                | _ \<Rightarrow> None)
             else None)
          route_verbs
      else None)"

text \<open>
  \<^verbatim>\<open>matchAll\<close>: the search goes on behind the last match; \<open>skip\<close> counts the
  characters of a match still to pass.
\<close>

fun matchAll_routes :: "nat \<Rightarrow> string \<Rightarrow> (string \<times> string) list" where
  "matchAll_routes skip [] = []"
| "matchAll_routes (Suc skip) (c # cs) = matchAll_routes skip cs"
| "matchAll_routes 0 (c # cs) =
     (case match_route_at (c # cs) of
        None \<Rightarrow> matchAll_routes 0 cs
      | Some (verb, path, len) \<Rightarrow> (verb, path) # matchAll_routes (len - 1) cs)"

definition routeNodes :: "payload artifact list \<Rightarrow> graph_node list" where
  "routeNodes routes =
     map (\<lambda>r. \<lparr>node_id = ident r, node_type = RouteNode, label = name (content r)\<rparr>) routes"

definition apiNodes :: "api list \<Rightarrow> graph_node list" where
  "apiNodes as =
     map (\<lambda>a. \<lparr>node_id = ident a, node_type = ApiNode,
               label = http_method (content a) @ '' '' @ endpoint (content a)\<rparr>) as"

definition make_edge :: "graph_node \<Rightarrow> graph_node \<Rightarrow> graph_edge" where
  "make_edge sourceNode targetNode =
     \<lparr>edge_id = node_id sourceNode @ ''-'' @ node_id targetNode,
      source = node_id sourceNode, target = node_id targetNode\<rparr>"

text \<open>The edges that one route definition of one router contributes.\<close>

definition definition_edges ::
  "api list \<Rightarrow> (string \<times> graph_node) list \<Rightarrow> graph_node \<Rightarrow> string \<times> string \<Rightarrow> graph_edge list" where
  "definition_edges all apiNodeMapById sourceNode m =
     (case m of (verb, path) \<Rightarrow>
        (case find (\<lambda>a. http_method (content a) = toUpperCase verb \<and> endpoint (content a) = path) all of
           None \<Rightarrow> []
         | Some targetApi \<Rightarrow>
             (case map_of apiNodeMapById (ident targetApi) of
                None \<Rightarrow> []
              | Some targetNode \<Rightarrow> [make_edge sourceNode targetNode])))"

text \<open>The third \<^verbatim>\<open>routes.forEach\<close> of the graph construction.\<close>

definition route_api_edges :: "payload artifact list \<Rightarrow> api_collection list \<Rightarrow> graph_edge list" where
  "route_api_edges routes cs =
     (let all = allApis cs;
          routeNodeMapByName = new_Map (map (\<lambda>n. (label n, n)) (routeNodes routes));
          apiNodeMapById = new_Map (map (\<lambda>n. (node_id n, n)) (apiNodes all))
      in concat
           (map (\<lambda>route.
                   case map_of routeNodeMapByName (name (content route)) of
                     None \<Rightarrow> []
                   | Some sourceNode \<Rightarrow>
                       concat (map (definition_edges all apiNodeMapById sourceNode)
                                 (matchAll_routes 0 (code (content route)))))
              routes))"

text \<open>
  A route definition as \<^verbatim>\<open>generateRoutes\<close> writes it, up to the closing quote of the
  path: \<^verbatim>\<open>router.<verb>('<path>'\<close>.
\<close>

definition route_statement :: "string \<Rightarrow> string \<Rightarrow> string" where
  "route_statement verb path =
     ''router.'' @ verb @ [CHR ''('', CHR 0x27] @ path @ [CHR 0x27]"

text \<open>
  The edges of one route statement in the words of the specification: one edge from the
  router to the live endpoint with the same verb and path, none without such an endpoint.
\<close>

definition statement_edges :: "api list \<Rightarrow> payload artifact \<Rightarrow> string \<times> string \<Rightarrow> graph_edge list" where
  "statement_edges live router st =
     (case find (\<lambda>a. http_method (content a) = toUpperCase (fst st) \<and>
                      endpoint (content a) = snd st) live of
        None \<Rightarrow> []
      | Some a \<Rightarrow>
          [\<lparr>edge_id = ident router @ ''-'' @ ident a, source = ident router, target = ident a\<rparr>])"

text \<open>
  No match of the route pattern starts inside \<open>gap\<close> when \<open>rest\<close> follows it: the
  search passes \<open>gap\<close> without a result.
\<close>

fun unmatched_prefix :: "string \<Rightarrow> string \<Rightarrow> bool" where
  "unmatched_prefix [] rest = True"
| "unmatched_prefix (c # cs) rest =
     (match_route_at (c # cs @ rest) = None \<and> unmatched_prefix cs rest)"

text \<open>
  The file that \<^verbatim>\<open>generateRoutes\<close> (geminiService) writes for one controller: a route
  is method, endpoint and handler.
\<close>

definition routeDefinition :: "string \<Rightarrow> string \<times> string \<times> string \<Rightarrow> string" where
  "routeDefinition controllerVarName r =
     (case r of (routeMethod, routeEndpoint, routeHandler) \<Rightarrow>
        ''router.'' @ routeMethod @ [CHR ''('', CHR 0x27] @ routeEndpoint @ [CHR 0x27] @ '', '' @
        controllerVarName @ ''.'' @ routeHandler @ '');'')"

fun join_with :: "string \<Rightarrow> string list \<Rightarrow> string" where
  "join_with sep [] = []"
| "join_with sep [x] = x"
| "join_with sep (x # y # ys) = x @ sep @ join_with sep (y # ys)"

definition fullCode :: "string \<Rightarrow> string \<Rightarrow> (string \<times> string \<times> string) list \<Rightarrow> string" where
  "fullCode controllerVarName controllerImportPath routeData =
     ''const express = require('' @ [CHR 0x27] @ ''express'' @ [CHR 0x27] @ '');'' @ [CHR 0x0A] @
     ''const router = express.Router();'' @ [CHR 0x0A] @
     ''const '' @ controllerVarName @ '' = require('' @ [CHR 0x27] @ controllerImportPath @
       [CHR 0x27] @ '');'' @ [CHR 0x0A, CHR 0x0A] @
     join_with [CHR 0x0A] (map (routeDefinition controllerVarName) routeData) @
     [CHR 0x0A, CHR 0x0A] @
     ''module.exports = router;''"

section \<open>Example data\<close>

definition ex_clock :: clock where
  "ex_clock k = 200 + int k"

definition ex_A :: "payload artifact" where
  "ex_A = \<lparr>ident = ''A-100'', content = \<lparr>name = ''A'', code = ''a1''\<rparr>, history = []\<rparr>"

definition ex_B :: "payload artifact" where
  "ex_B = \<lparr>ident = ''B-100'', content = \<lparr>name = ''B'', code = ''b1''\<rparr>, history = []\<rparr>"

definition ex_C :: "payload artifact" where
  "ex_C = \<lparr>ident = ''C-101'', content = \<lparr>name = ''C'', code = ''c1''\<rparr>, history = []\<rparr>"

text \<open>A batch as the generators return it: every item has an id of its own.\<close>

definition ex_batch :: "batch_item list" where
  "ex_batch =
     [\<lparr>name = ''A'', code = ''a1'', item_id = Some ''ctrl-200-0.11''\<rparr>,
      \<lparr>name = ''C'', code = ''c2'', item_id = Some ''ctrl-200-0.22''\<rparr>,
      \<lparr>name = ''D'', code = ''d1'', item_id = Some ''ctrl-200-0.33''\<rparr>]"

definition ex_committed :: "payload artifact list" where
  "ex_committed =
     [\<lparr>ident = ''A-100'', content = \<lparr>name = ''A'', code = ''a2''\<rparr>,
       history = [\<lparr>timestamp = 150, data = \<lparr>name = ''A'', code = ''a1''\<rparr>,
                   message = Some ''Auto-saved on generation''\<rparr>]\<rparr>,
      ex_B]"

definition ex_A_again :: "payload artifact" where
  "ex_A_again = \<lparr>ident = ''A-150'', content = \<lparr>name = ''A'', code = ''a2''\<rparr>, history = []\<rparr>"

definition ex_reconciled :: "payload artifact list" where
  "ex_reconciled =
     [ex_A,
      \<lparr>ident = ''ctrl-200-0.22'', content = \<lparr>name = ''C'', code = ''c2''\<rparr>,
       history = [\<lparr>timestamp = 200, data = \<lparr>name = ''C'', code = ''c1''\<rparr>,
                   message = Some ''Auto-saved on generation''\<rparr>]\<rparr>]"

definition ex_later :: clock where
  "ex_later k = 300 + int k"



definition ex_Category :: model where
  "ex_Category =
     \<lparr>ident = ''model-1'',
      content = \<lparr>name = ''Category'', code = ''// schema'', model_fields = [(''title'', ''String'')]\<rparr>,
      history = []\<rparr>"

definition ex_list_categories :: api where
  "ex_list_categories =
     \<lparr>ident = ''api-1'',
      content = \<lparr>name = ''ListAll'', code = ''async (req, res) => {}'',
                 endpoint = ''/api/categories'', http_method = ''GET'',
                 description = ''Lists all.'', requestBodyExample = None,
                 responseBodyExample = Some ''[]''\<rparr>,
      history = []\<rparr>"

definition ex_list_addresses :: api where
  "ex_list_addresses =
     \<lparr>ident = ''api-2'',
      content = \<lparr>name = ''ListAll'', code = ''async (req, res) => {}'',
                 endpoint = ''/api/address'', http_method = ''GET'',
                 description = ''Lists all.'', requestBodyExample = None,
                 responseBodyExample = Some ''[]''\<rparr>,
      history = []\<rparr>"

definition ex_route :: "payload artifact" where
  "ex_route =
     \<lparr>ident = ''route-1'',
      content = \<lparr>name = ''userRoutes.js'',
                 code = fullCode ''userController'' ''../controllers/userController.js''
                          [(''get'', ''/api/users'', ''listUsers''),
                           (''delete'', ''/api/users/:id'', ''removeUser'')]\<rparr>,
      history = []\<rparr>"

definition ex_list_users :: api where
  "ex_list_users =
     \<lparr>ident = ''api-3'',
      content = \<lparr>name = ''ListUsers'', code = ''async (req, res) => {}'',
                 endpoint = ''/api/users'', http_method = ''GET'',
                 description = ''Lists users.'', requestBodyExample = None,
                 responseBodyExample = Some ''[]''\<rparr>,
      history = []\<rparr>"

definition ex_collections :: "api_collection list" where
  "ex_collections =
     [\<lparr>coll_id = ''coll-uncategorized-1'', coll_name = ''Uncategorized'', apis = [ex_list_categories]\<rparr>,
      \<lparr>coll_id = ''coll-2'', coll_name = ''Users'', apis = [ex_list_users]\<rparr>]"


text \<open>An update and a commit in the same millisecond.\<close>

definition ex_ops_same_ms :: "op list" where
  "ex_ops_same_ms =
     [Reconcile (\<lambda>k. 1) [\<lparr>name = ''A'', code = ''x'', item_id = Some ''ctrl-1-0.5''\<rparr>],
      Reconcile (\<lambda>k. 2) [\<lparr>name = ''A'', code = ''y'', item_id = Some ''ctrl-2-0.5''\<rparr>],
      Commit (\<lambda>k. 2) ''m'']"

text \<open>The lines of the generated file before the first route definition, and what follows
  the path of a route definition.\<close>

definition ex_header :: string where
  "ex_header =
     ''const express = require('' @ [CHR 0x27] @ ''express'' @ [CHR 0x27] @ '');'' @ [CHR 0x0A] @
     ''const router = express.Router();'' @ [CHR 0x0A] @
     ''const userController = require('' @ [CHR 0x27] @ ''../controllers/userController.js'' @
       [CHR 0x27] @ '');'' @ [CHR 0x0A, CHR 0x0A]"

definition ex_footer :: string where
  "ex_footer = '', userController.removeUser);'' @ [CHR 0x0A, CHR 0x0A] @ ''module.exports = router;''"

text \<open>
  A router whose endpoint has a double quote in its path, and a live endpoint whose path
  is the part before that quote.
\<close>

definition ex_route_quote :: "payload artifact" where
  "ex_route_quote =
     \<lparr>ident = ''route-2'',
      content = \<lparr>name = ''userRoutes.js'',
                 code = fullCode ''userController'' ''../controllers/userController.js''
                          [(''get'', ''/api/users'' @ [CHR 0x22] @ ''v2'' @ [CHR 0x22], ''listUsersV2'')]\<rparr>,
      history = []\<rparr>"

lemmas ex_defs = ex_clock_def ex_A_def ex_B_def ex_C_def ex_batch_def

section \<open>Proofs: reconciliation\<close>

lemma new_Map_snoc: "new_Map (ps @ [(k, v)]) = AList.update k v (new_Map ps)"
  by (simp add: new_Map_def)

lemma map_of_new_Map: "map_of (new_Map ps) = map_of (rev ps)"
proof (induction ps rule: rev_induct)
  case Nil show ?case by (simp add: new_Map_def)
next
  case (snoc p ps)
  then show ?case by (cases p) (simp add: new_Map_snoc update_conv')
qed

lemma keys_new_Map: "map fst (new_Map ps) = rev (remdups (rev (map fst ps)))"
proof (induction ps rule: rev_induct)
  case Nil show ?case by (simp add: new_Map_def)
next
  case (snoc p ps)
  then show ?case by (cases p) (simp add: new_Map_snoc update_keys)
qed

lemma distinct_new_Map: "distinct (map fst (new_Map ps))"
  by (simp add: keys_new_Map)

lemma map_of_batch: "map_of (map (\<lambda>item. (name item, item)) xs) k = find (\<lambda>item. name item = k) xs"
  by (induction xs) auto

lemma lookup_new_Map: "map_of (new_Map (map (\<lambda>item. (name item, item)) newItems)) = batch_lookup newItems"
  by (rule ext) (simp add: map_of_new_Map batch_lookup_def rev_map map_of_batch)

lemma keys_batch: "map fst (new_Map (map (\<lambda>item. (name item, item)) newItems)) = batch_keys newItems"
  by (simp add: keys_new_Map batch_keys_def comp_def)

lemma reconcile_matched_cong:
  "(\<And>a. a \<in> set xs \<Longrightarrow> look (key a) = look' (key a)) \<Longrightarrow>
   reconcile_matched idf clk n look xs = reconcile_matched idf clk n look' xs"
  by (induction xs arbitrary: n) (auto split: option.splits)

lemma changed_count_cong:
  "(\<And>a. a \<in> set xs \<Longrightarrow> look (key a) = look' (key a)) \<Longrightarrow>
   changed_count look xs = changed_count look' xs"
  unfolding changed_count_def by (rule arg_cong[where f=length], rule filter_cong) auto

lemma set_first_by_name: "set (first_by_name xs) \<subseteq> set xs"
  by (induction xs rule: first_by_name.induct) auto

lemma first_by_name_distinct: "distinct (map key xs) \<Longrightarrow> first_by_name xs = xs"
proof (induction xs)
  case Nil show ?case by simp
next
  case (Cons a xs)
  from Cons.prems have "key a \<notin> set (map key xs)" by simp
  then have "\<forall>x\<in>set xs. key x \<noteq> key a" by (fastforce simp: image_iff)
  then have "filter (\<lambda>b. key b \<noteq> key a) xs = xs"
    by (simp add: filter_id_conv)
  with Cons show ?case by simp
qed

lemma changed_count_Cons:
  "changed_count look (a # as) =
     (case look (key a) of None \<Rightarrow> 0 | Some b \<Rightarrow> if fields_of b = content a then 0 else 1) + changed_count look as"
  by (simp add: changed_count_def split: option.splits)

lemma reconcile_matched_skip:
  "look k = None \<Longrightarrow>
   reconcile_matched idf clk n look (first_by_name (filter (\<lambda>b. key b \<noteq> k) xs)) =
   reconcile_matched idf clk n look (first_by_name xs)"
proof (induction xs arbitrary: n rule: first_by_name.induct)
  case 1 show ?case by simp
next
  case (2 a as)
  have comm: "filter (\<lambda>b. key b \<noteq> key a) (filter (\<lambda>b. key b \<noteq> k) as) =
              filter (\<lambda>b. key b \<noteq> k) (filter (\<lambda>b. key b \<noteq> key a) as)"
    by (simp add: conj_commute)
  show ?case
  proof (cases "key a = k")
    case True
    with 2 show ?thesis by simp
  next
    case False
    with 2 show ?thesis by (simp add: comm del: filter_filter split: option.splits)
  qed
qed

lemma changed_count_skip:
  "look k = None \<Longrightarrow>
   changed_count look (first_by_name (filter (\<lambda>b. key b \<noteq> k) xs)) =
   changed_count look (first_by_name xs)"
proof (induction xs rule: first_by_name.induct)
  case 1 show ?case by simp
next
  case (2 a as)
  have comm: "filter (\<lambda>b. key b \<noteq> key a) (filter (\<lambda>b. key b \<noteq> k) as) =
              filter (\<lambda>b. key b \<noteq> k) (filter (\<lambda>b. key b \<noteq> key a) as)"
    by (simp add: conj_commute)
  show ?case
  proof (cases "key a = k")
    case True
    with 2 show ?thesis by (simp add: changed_count_Cons)
  next
    case False
    with 2 show ?thesis by (simp add: comm changed_count_Cons del: filter_filter)
  qed
qed

lemma keyed_lookup: "keyed m \<Longrightarrow> map_of m k = Some b \<Longrightarrow> name b = k"
  by (auto simp: keyed_def list_all_iff dest: map_of_SomeD)

lemma keyed_delete: "keyed m \<Longrightarrow> keyed (AList.delete k m)"
  by (auto simp: keyed_def list_all_iff AList.delete_eq)

lemma payload_eq: "((b::payload) = c) = (name b = name c \<and> code b = code c)"
  by (cases b, cases c) auto

lemma fields_eq: "(fields_of b = c) = (name b = name c \<and> code b = code c)"
  by (simp add: fields_of_def payload_eq)

lemma update_existing_final:
  "keyed m \<Longrightarrow>
   fst (snd (update_existing clk es (m, final, n))) =
     final @ reconcile_matched spread_id clk n (map_of m) (first_by_name es)"
proof (induction es arbitrary: m final n)
  case Nil show ?case by simp
next
  case (Cons e es)
  let ?k = "key e"
  show ?case
  proof (cases "map_of m ?k")
    case None
    with Cons show ?thesis by (simp add: reconcile_matched_skip)
  next
    case (Some b)
    let ?m' = "AList.delete ?k m"
    have nb: "name b = ?k" using Cons.prems Some by (rule keyed_lookup)
    have k': "keyed ?m'" using Cons.prems by (rule keyed_delete)
    have none: "map_of ?m' ?k = None" by (simp add: delete_conv')
    have eq: "\<And>j. reconcile_matched spread_id clk j (map_of ?m') (first_by_name es) =
          reconcile_matched spread_id clk j (map_of m) (first_by_name (filter (\<lambda>b. key b \<noteq> ?k) es))"
    proof -
      fix j
      have "reconcile_matched spread_id clk j (map_of ?m') (first_by_name es) =
            reconcile_matched spread_id clk j (map_of ?m') (first_by_name (filter (\<lambda>b. key b \<noteq> ?k) es))"
        using none by (simp add: reconcile_matched_skip)
      also have "\<dots> = reconcile_matched spread_id clk j (map_of m) (first_by_name (filter (\<lambda>b. key b \<noteq> ?k) es))"
      proof (rule reconcile_matched_cong)
        fix a assume "a \<in> set (first_by_name (filter (\<lambda>b. key b \<noteq> ?k) es))"
        then have "a \<in> set (filter (\<lambda>b. key b \<noteq> ?k) es)" using set_first_by_name by blast
        then show "map_of ?m' (key a) = map_of m (key a)" by (simp add: delete_conv')
      qed
      finally show "reconcile_matched spread_id clk j (map_of ?m') (first_by_name es) =
          reconcile_matched spread_id clk j (map_of m) (first_by_name (filter (\<lambda>b. key b \<noteq> ?k) es))" .
    qed
    show ?thesis
      using Some nb by (simp add: Cons.IH[OF k'] eq fields_eq updated_def)
  qed
qed

lemma update_existing_count:
  "keyed m \<Longrightarrow>
   snd (snd (update_existing clk es (m, final, n))) =
     n + changed_count (map_of m) (first_by_name es)"
proof (induction es arbitrary: m final n)
  case Nil show ?case by (simp add: changed_count_def)
next
  case (Cons e es)
  let ?k = "key e"
  show ?case
  proof (cases "map_of m ?k")
    case None
    with Cons show ?thesis by (simp add: changed_count_skip changed_count_Cons)
  next
    case (Some b)
    let ?m' = "AList.delete ?k m"
    have nb: "name b = ?k" using Cons.prems Some by (rule keyed_lookup)
    have k': "keyed ?m'" using Cons.prems by (rule keyed_delete)
    have none: "map_of ?m' ?k = None" by (simp add: delete_conv')
    have "changed_count (map_of ?m') (first_by_name es) =
            changed_count (map_of ?m') (first_by_name (filter (\<lambda>b. key b \<noteq> ?k) es))"
      using none by (simp add: changed_count_skip)
    also have "\<dots> = changed_count (map_of m) (first_by_name (filter (\<lambda>b. key b \<noteq> ?k) es))"
    proof (rule changed_count_cong)
      fix a assume "a \<in> set (first_by_name (filter (\<lambda>b. key b \<noteq> ?k) es))"
      then have "a \<in> set (filter (\<lambda>b. key b \<noteq> ?k) es)" using set_first_by_name by blast
      then show "map_of ?m' (key a) = map_of m (key a)" by (simp add: delete_conv')
    qed
    finally have eq: "changed_count (map_of ?m') (first_by_name es) =
          changed_count (map_of m) (first_by_name (filter (\<lambda>b. key b \<noteq> ?k) es))" .
    show ?thesis
      using Some nb by (simp add: Cons.IH[OF k'] eq fields_eq changed_count_Cons)
  qed
qed

lemma update_existing_map:
  "fst (update_existing clk es (m, final, n)) =
     filter (\<lambda>(k, v). k \<notin> set (map key es)) m"
proof (induction es arbitrary: m final n)
  case Nil show ?case by simp
next
  case (Cons e es)
  show ?case
  proof (cases "map_of m (key e)")
    case None
    then have "key e \<notin> fst ` set m" by (simp add: map_of_eq_None_iff)
    then have "filter (\<lambda>(k, v). k \<notin> set (map key (e # es))) m =
               filter (\<lambda>(k, v). k \<notin> set (map key es)) m"
      by (intro filter_cong) force+
    with None Cons show ?thesis by simp
  next
    case (Some b)
    have "filter (\<lambda>(k, v). k \<notin> set (map key es)) (AList.delete (key e) m) =
          filter (\<lambda>(k, v). k \<notin> set (map key (e # es))) m"
      by (auto simp: AList.delete_eq intro: filter_cong)
    with Some Cons show ?thesis by simp
  qed
qed

lemma brand_new_Nil: "brand_new clk n [] = []"
  by (simp add: brand_new_def)

lemma brand_new_Cons:
  "brand_new clk n (b # bs) =
     \<lparr>ident = name b @ ''-'' @ number_to_string (clk n), content = fields_of b,
      history = []\<rparr>
       # brand_new clk (Suc n) bs"
  by (simp add: brand_new_def)

lemma add_new_eq:
  "fst (add_new clk m (final, n)) = final @ brand_new clk n (map snd m)"
  by (induction m arbitrary: final n) (auto simp: brand_new_Nil brand_new_Cons)

lemma map_filter_cong:
  "(\<And>x. x \<in> set xs \<Longrightarrow> f x = g x) \<Longrightarrow> List.map_filter f xs = List.map_filter g xs"
proof (induction xs)
  case Nil show ?case by simp
next
  case (Cons a xs)
  then have "List.map_filter f xs = List.map_filter g xs" by simp
  moreover have "f a = g a" using Cons.prems by simp
  ultimately show ?case by (simp split: option.splits)
qed

lemma values_by_keys:
  "distinct (map fst m) \<Longrightarrow>
   map snd (filter (\<lambda>(k, v). P k) m) = List.map_filter (map_of m) (filter P (map fst m))"
proof (induction m)
  case Nil show ?case by simp
next
  case (Cons p m)
  obtain k v where p: "p = (k, v)" by (cases p)
  from Cons.prems p have nk: "k \<notin> fst ` set m" and d: "distinct (map fst m)" by auto
  have rest: "List.map_filter (map_of ((k, v) # m)) (filter P (map fst m)) =
        List.map_filter (map_of m) (filter P (map fst m))"
    using nk by (intro map_filter_cong) auto
  have fk: "map_of ((k, v) # m) k = Some v" by simp
  show ?case using Cons.IH[OF d] rest fk by (simp add: p del: map_of.simps)
qed

lemma keys_first_by_name: "set (map key (first_by_name xs)) = set (map key xs)"
proof (induction xs rule: first_by_name.induct)
  case 1 show ?case by simp
next
  case (2 a as)
  then show ?case by auto
qed

lemma keyed_new_Map: "keyed (new_Map (map (\<lambda>item. (name item, item)) newItems))"
proof -
  let ?M = "new_Map (map (\<lambda>item. (name item, item)) newItems)"
  have "name b = k" if "(k, b) \<in> set ?M" for k b
  proof -
    have "map_of ?M k = Some b"
      using that distinct_new_Map by (rule map_of_is_SomeI[rotated])
    then have "batch_lookup newItems k = Some b" by (simp only: lookup_new_Map)
    then have "find (\<lambda>item. name item = k) (rev newItems) = Some b"
      by (simp only: batch_lookup_def)
    then show ?thesis by (auto simp: find_Some_iff)
  qed
  then show ?thesis unfolding keyed_def list_all_iff by blast
qed

lemma smartUpdate_general:
  "smartUpdate clk existing newItems = reconcile_with spread_id clk (first_by_name existing) newItems"
proof -
  let ?M = "new_Map (map (\<lambda>item. (name item, item)) newItems)"
  obtain m' final n where st: "update_existing clk existing (?M, [], 0) = (m', final, n)"
    by (cases "update_existing clk existing (?M, [], 0)")
  have f: "final = reconcile_matched spread_id clk 0 (batch_lookup newItems) (first_by_name existing)"
    using update_existing_final[OF keyed_new_Map, of clk existing newItems "[]" 0] st
    by (simp add: lookup_new_Map)
  have c: "n = changed_count (batch_lookup newItems) (first_by_name existing)"
    using update_existing_count[OF keyed_new_Map, of clk existing newItems "[]" 0] st
    by (simp add: lookup_new_Map)
  have m: "m' = filter (\<lambda>(k, v). k \<notin> set (map key existing)) ?M"
    using update_existing_map[of clk existing ?M "[]" 0] st by simp
  have "map snd m' = unconsumed (first_by_name existing) newItems"
    unfolding m unconsumed_def keys_first_by_name
    by (simp add: values_by_keys[OF distinct_new_Map] lookup_new_Map keys_batch)
  then show ?thesis
    by (simp add: smartUpdate_def st add_new_eq reconcile_with_def f c)
qed

lemma digit_char_not_minus: "d < 10 \<Longrightarrow> digit_char d \<noteq> CHR ''-''"
proof
  assume d: "d < 10" and e: "digit_char d = CHR ''-''"
  have "of_char (digit_char d) = (48 + d :: nat)"
    using d by (simp add: digit_char_def)
  with e show False by simp
qed

lemma minus_notin_digits: "CHR ''-'' \<notin> set (digits n)"
proof (induction n rule: digits.induct)
  case (1 n)
  show ?case
  proof (cases "n < 10")
    case True
    then show ?thesis using digit_char_not_minus[of n] by (subst digits.simps) auto
  next
    case False
    then show ?thesis using 1 digit_char_not_minus[of "n mod 10"]
      by (subst digits.simps) auto
  qed
qed

lemma split_at_last:
  "c \<notin> set ys \<Longrightarrow> c \<notin> set ys' \<Longrightarrow> xs @ c # ys = xs' @ c # ys' \<Longrightarrow> xs = xs' \<and> ys = ys'"
proof (induction xs arbitrary: xs')
  case Nil
  then show ?case by (cases xs') auto
next
  case (Cons x xs)
  then show ?case by (cases xs') auto
qed

lemma ident_inj:
  "0 \<le> s \<Longrightarrow> 0 \<le> t \<Longrightarrow>
   m @ ''-'' @ number_to_string s = n @ ''-'' @ number_to_string t \<Longrightarrow> m = n"
  using split_at_last[of "CHR ''-''" "digits (nat s)" "digits (nat t)" m n]
  by (simp add: number_to_string_def minus_notin_digits)

lemma find_SomeD: "find P xs = Some x \<Longrightarrow> P x \<and> x \<in> set xs"
  by (induction xs) (auto split: if_splits)

lemma batch_lookup_Some: "batch_lookup newItems k = Some b \<Longrightarrow> name b = k \<and> b \<in> set newItems"
  unfolding batch_lookup_def by (drule find_SomeD) simp

lemma batch_lookup_dom: "(batch_lookup newItems k \<noteq> None) = (k \<in> set (map name newItems))"
  by (auto simp: batch_lookup_def find_None_iff)

lemma set_batch_keys: "set (batch_keys newItems) = set (map name newItems)"
  by (simp add: batch_keys_def)

lemma distinct_batch_keys: "distinct (batch_keys newItems)"
  by (simp add: batch_keys_def)

lemma keys_reconcile_matched:
  "(\<And>k b. look k = Some b \<Longrightarrow> name b = k) \<Longrightarrow>
   map key (reconcile_matched idf clk n look xs) = filter (\<lambda>k. look k \<noteq> None) (map key xs)"
proof (induction xs arbitrary: n)
  case Nil show ?case by simp
next
  case (Cons a xs)
  show ?case
  proof (cases "look (key a)")
    case None
    then show ?thesis using Cons.IH[OF Cons.prems] by simp
  next
    case (Some b)
    have "name b = key a" using Some by (rule Cons.prems)
    then show ?thesis using Some Cons.IH[OF Cons.prems] by (simp add: updated_def fields_of_def)
  qed
qed

lemma names_map_filter:
  "(\<And>k. k \<in> set ks \<Longrightarrow> \<exists>b. f k = Some b \<and> name b = k) \<Longrightarrow>
   map name (List.map_filter f ks) = ks"
proof (induction ks)
  case Nil show ?case by simp
next
  case (Cons k ks)
  then obtain b where "f k = Some b" "name b = k" by auto
  moreover have "map name (List.map_filter f ks) = ks" using Cons by simp
  ultimately show ?case by simp
qed

lemma names_unconsumed:
  "map name (unconsumed existing newItems) =
     filter (\<lambda>k. k \<notin> set (map key existing)) (batch_keys newItems)"
  unfolding unconsumed_def
proof (rule names_map_filter)
  fix k assume "k \<in> set (filter (\<lambda>k. k \<notin> set (map key existing)) (batch_keys newItems))"
  then have "k \<in> set (map name newItems)" by (simp add: set_batch_keys)
  then obtain b where "batch_lookup newItems k = Some b"
    using batch_lookup_dom[of newItems k] by auto
  then show "\<exists>b. batch_lookup newItems k = Some b \<and> name b = k"
    using batch_lookup_Some by blast
qed

lemma keys_brand_new: "map key (brand_new clk n items) = map name items"
  by (induction items arbitrary: n) (simp_all add: brand_new_Nil brand_new_Cons fields_of_def)

lemma ident_brand_new:
  "a \<in> set (brand_new clk n items) \<Longrightarrow>
   \<exists>i. ident a = key a @ ''-'' @ number_to_string (clk i)"
  by (induction items arbitrary: n) (auto simp: brand_new_Nil brand_new_Cons fields_of_def)

lemma distinct_ident_brand_new:
  assumes "\<And>k. 0 \<le> clk k" and "distinct (map name items)"
  shows "distinct (map ident (brand_new clk n items))"
  using assms(2)
proof (induction items arbitrary: n)
  case Nil show ?case by (simp add: brand_new_Nil)
next
  case (Cons b bs)
  have "name b @ ''-'' @ number_to_string (clk n) \<notin> ident ` set (brand_new clk (Suc n) bs)"
  proof
    assume "name b @ ''-'' @ number_to_string (clk n) \<in> ident ` set (brand_new clk (Suc n) bs)"
    then obtain a where a: "a \<in> set (brand_new clk (Suc n) bs)"
      and e: "name b @ ''-'' @ number_to_string (clk n) = ident a" by auto
    from ident_brand_new[OF a] obtain i where "ident a = key a @ ''-'' @ number_to_string (clk i)" ..
    with e have "name b @ ''-'' @ number_to_string (clk n) = key a @ ''-'' @ number_to_string (clk i)"
      by simp
    then have "name b = key a" by (rule ident_inj[OF assms(1) assms(1)])
    moreover from a have "key a \<in> set (map key (brand_new clk (Suc n) bs))" by auto
    ultimately have "name b \<in> set (map name bs)" by (simp add: keys_brand_new)
    with Cons.prems show False by simp
  qed
  with Cons show ?case by (simp add: brand_new_Cons)
qed

lemma distinct_names_unconsumed: "distinct (map name (unconsumed existing newItems))"
  by (simp add: names_unconsumed distinct_batch_keys)

lemma fresh_ident_brand_new:
  assumes "\<And>k. 0 \<le> clk k"
    and "\<And>a. a \<in> set existing \<Longrightarrow> \<exists>t\<ge>0. ident a = key a @ ''-'' @ number_to_string t"
    and "set (map name items) \<inter> set (map key existing) = {}"
    and "b \<in> set (brand_new clk n items)"
  shows "ident b \<notin> ident ` set existing"
proof
  assume "ident b \<in> ident ` set existing"
  then obtain a where a: "a \<in> set existing" and e: "ident b = ident a" by auto
  from assms(2)[OF a] obtain t where t: "0 \<le> t" "ident a = key a @ ''-'' @ number_to_string t" by auto
  from ident_brand_new[OF assms(4)] obtain i where i: "ident b = key b @ ''-'' @ number_to_string (clk i)" ..
  from e t i have "key b @ ''-'' @ number_to_string (clk i) = key a @ ''-'' @ number_to_string t"
    by simp
  then have "key b = key a" by (rule ident_inj[OF assms(1) t(1)])
  moreover have "key b \<in> set (map key (brand_new clk n items))" using assms(4) by simp
  then have "key b \<in> set (map name items)" by (simp only: keys_brand_new)
  moreover have "key a \<in> set (map key existing)" using a by auto
  ultimately show False using assms(3) by auto
qed

lemma smartUpdate_distinct:
  "distinct (map key existing) \<Longrightarrow>
   smartUpdate clk existing newItems = reconcile_with spread_id clk existing newItems"
  by (simp add: smartUpdate_general first_by_name_distinct)

lemma reconcile_matched_typed:
  "(\<And>k b. look k = Some b \<Longrightarrow> item_id b = None) \<Longrightarrow>
   reconcile_matched spread_id clk n look xs = reconcile_matched kept_id clk n look xs"
proof (induction xs arbitrary: n)
  case Nil show ?case by simp
next
  case (Cons a xs)
  show ?case
  proof (cases "look (key a)")
    case None
    then show ?thesis using Cons.IH[OF Cons.prems] by simp
  next
    case (Some b)
    have "item_id b = None" using Some by (rule Cons.prems)
    then show ?thesis
      using Some Cons.IH[OF Cons.prems] by (simp add: updated_def spread_id_def kept_id_def)
  qed
qed

text \<open>
  For a batch of the declared type, whose items have no id, the source does what the
  specification says.
\<close>

lemma smartUpdate_typed:
  assumes "distinct (map key existing)" and "list_all (\<lambda>b. item_id b = None) newItems"
  shows "smartUpdate clk existing newItems = reconcile_spec clk existing newItems"
proof -
  have "\<And>k b. batch_lookup newItems k = Some b \<Longrightarrow> item_id b = None"
    using assms(2) batch_lookup_Some by (fastforce simp: list_all_iff)
  then have "reconcile_matched spread_id clk 0 (batch_lookup newItems) existing =
             reconcile_matched kept_id clk 0 (batch_lookup newItems) existing"
    by (rule reconcile_matched_typed)
  then show ?thesis
    using assms(1) by (simp add: smartUpdate_distinct reconcile_with_def reconcile_spec_def)
qed

text \<open>
  Claim C1 is right and the source is wrong. The claim describes the result of the
  reconciliation, and the source returns it with one exception: an existing artifact whose
  content changes comes back under the identifier of the batch item, not under its own.
  The update branch spreads the batch item over the existing artifact and sets the
  history again, but not the identifier; the branch for new artifacts sets both, the
  branch for unchanged artifacts keeps the artifact, and the parameter type says that a
  batch item has no identifier. Every caller passes items that have one. Here the
  collection \<open>A, B, C\<close> meets a generated batch \<open>A, C, D\<close> in which \<open>C\<close> has new
  code: \<open>A\<close>, \<open>C\<close> and \<open>D\<close> come back in the order and with the content and
  histories that the claim states, \<open>B\<close> is dropped, but \<open>C\<close> has the identifier of
  the batch item where the specification keeps \<open>C-101\<close>.
\<close>

theorem update_takes_batch_id:
  "smartUpdate ex_clock [ex_A, ex_B, ex_C] ex_batch =
     [ex_A,
      \<lparr>ident = ''ctrl-200-0.22'', content = \<lparr>name = ''C'', code = ''c2''\<rparr>,
       history = [\<lparr>timestamp = 200, data = \<lparr>name = ''C'', code = ''c1''\<rparr>,
                   message = Some ''Auto-saved on generation''\<rparr>]\<rparr>,
      \<lparr>ident = ''D-201'', content = \<lparr>name = ''D'', code = ''d1''\<rparr>, history = []\<rparr>]
   \<and> reconcile_spec ex_clock [ex_A, ex_B, ex_C] ex_batch =
     [ex_A,
      \<lparr>ident = ''C-101'', content = \<lparr>name = ''C'', code = ''c2''\<rparr>,
       history = [\<lparr>timestamp = 200, data = \<lparr>name = ''C'', code = ''c1''\<rparr>,
                   message = Some ''Auto-saved on generation''\<rparr>]\<rparr>,
      \<lparr>ident = ''D-201'', content = \<lparr>name = ''D'', code = ''d1''\<rparr>, history = []\<rparr>]"
proof
  show "smartUpdate ex_clock [ex_A, ex_B, ex_C] ex_batch =
     [ex_A,
      \<lparr>ident = ''ctrl-200-0.22'', content = \<lparr>name = ''C'', code = ''c2''\<rparr>,
       history = [\<lparr>timestamp = 200, data = \<lparr>name = ''C'', code = ''c1''\<rparr>,
                   message = Some ''Auto-saved on generation''\<rparr>]\<rparr>,
      \<lparr>ident = ''D-201'', content = \<lparr>name = ''D'', code = ''d1''\<rparr>, history = []\<rparr>]"
    by code_simp
  show "reconcile_spec ex_clock [ex_A, ex_B, ex_C] ex_batch =
     [ex_A,
      \<lparr>ident = ''C-101'', content = \<lparr>name = ''C'', code = ''c2''\<rparr>,
       history = [\<lparr>timestamp = 200, data = \<lparr>name = ''C'', code = ''c1''\<rparr>,
                   message = Some ''Auto-saved on generation''\<rparr>]\<rparr>,
      \<lparr>ident = ''D-201'', content = \<lparr>name = ''D'', code = ''d1''\<rparr>, history = []\<rparr>]"
    by code_simp
qed

lemma reconcile_matched_same:
  "(\<And>a. a \<in> set xs \<Longrightarrow> \<exists>b. look (key a) = Some b \<and> fields_of b = content a) \<Longrightarrow>
   reconcile_matched idf clk n look xs = xs"
proof (induction xs)
  case Nil show ?case by simp
next
  case (Cons a xs)
  then obtain b where "look (key a) = Some b" "fields_of b = content a" by auto
  moreover have "reconcile_matched idf clk n look xs = xs" using Cons by simp
  ultimately show ?case by simp
qed

lemma smartUpdate_same:
  assumes d: "distinct (map key existing)"
    and k: "set (map name newItems) = set (map key existing)"
    and c: "\<And>a b. a \<in> set existing \<Longrightarrow> b \<in> set newItems \<Longrightarrow> name b = key a \<Longrightarrow>
              fields_of b = content a"
  shows "smartUpdate clk existing newItems = existing"
proof -
  have look: "\<exists>b. batch_lookup newItems (key a) = Some b \<and> fields_of b = content a"
    if a: "a \<in> set existing" for a
  proof -
    from a k have "key a \<in> set (map name newItems)" by auto
    then obtain b where b: "batch_lookup newItems (key a) = Some b"
      using batch_lookup_dom[of newItems "key a"] by auto
    from batch_lookup_Some[OF b] c[OF a] have "fields_of b = content a" by blast
    with b show ?thesis by blast
  qed
  have "filter (\<lambda>k. k \<notin> set (map key existing)) (batch_keys newItems) = []"
    using k by (simp add: filter_empty_conv set_batch_keys)
  then have u: "unconsumed existing newItems = []" by (simp add: unconsumed_def)
  have "reconcile_matched spread_id clk 0 (batch_lookup newItems) existing = existing"
    using look by (rule reconcile_matched_same)
  then show ?thesis
    using d u by (simp add: smartUpdate_distinct reconcile_with_def brand_new_Nil)
qed

text \<open>
  Claim C4. Reconciling a collection of pairwise different names with a batch of the same
  names and the same content returns the collection itself: same identifiers, same
  content, same histories, no new history entry. The batch may be the contents of the
  collection, each under any identifier or none, or any batch with the same names whose
  items have the current contents.
\<close>

theorem reconcile_idempotent:
  assumes "distinct (map key existing)"
  shows "smartUpdate clk existing
           (map (\<lambda>a. \<lparr>name = key a, code = code (content a), item_id = g a\<rparr>) existing) = existing
       \<and> (set (map name newItems) = set (map key existing)
            \<and> (\<forall>a \<in> set existing. \<forall>b \<in> set newItems. name b = key a \<longrightarrow> fields_of b = content a)
          \<longrightarrow> smartUpdate clk existing newItems = existing)"
proof (intro conjI impI)
  have inj: "a = a'" if "a \<in> set existing" "a' \<in> set existing" "key a = key a'" for a a'
    using assms that by (meson distinct_map inj_onD)
  show "smartUpdate clk existing
           (map (\<lambda>a. \<lparr>name = key a, code = code (content a), item_id = g a\<rparr>) existing) = existing"
  proof (rule smartUpdate_same[OF assms])
    show "set (map name (map (\<lambda>a. \<lparr>name = key a, code = code (content a), item_id = g a\<rparr>)
                existing)) = set (map key existing)"
      by (simp add: comp_def)
  next
    fix a b assume a: "a \<in> set existing"
      and b: "b \<in> set (map (\<lambda>a. \<lparr>name = key a, code = code (content a), item_id = g a\<rparr>) existing)"
      and n: "name b = key a"
    from b obtain a' where a': "a' \<in> set existing"
      "b = \<lparr>name = key a', code = code (content a'), item_id = g a'\<rparr>" by auto
    with n have "key a' = key a" by simp
    with a a' have "a' = a" using inj by blast
    with a' show "fields_of b = content a" by (simp add: fields_eq)
  qed
next
  assume "set (map name newItems) = set (map key existing)
            \<and> (\<forall>a \<in> set existing. \<forall>b \<in> set newItems. name b = key a \<longrightarrow> fields_of b = content a)"
  then show "smartUpdate clk existing newItems = existing"
    using smartUpdate_same[OF assms, of newItems clk] by blast
qed

theorem reconcile_idempotent_witness:
  "distinct (map key ex_committed)
   \<and> smartUpdate ex_clock ex_committed
        [\<lparr>name = ''A'', code = ''a2'', item_id = Some ''ctrl-200-0.11''\<rparr>,
         \<lparr>name = ''B'', code = ''b1'', item_id = Some ''ctrl-200-0.22''\<rparr>] = ex_committed
   \<and> smartUpdate ex_clock ex_committed
        [\<lparr>name = ''B'', code = ''b1'', item_id = Some ''ctrl-200-0.22''\<rparr>,
         \<lparr>name = ''A'', code = ''a2'', item_id = None\<rparr>] = ex_committed"
proof -
  have d: "distinct (map key ex_committed)" by (simp add: ex_committed_def ex_defs)
  have m: "map (\<lambda>a. \<lparr>name = key a, code = code (content a),
                      item_id = (if key a = ''A'' then Some ''ctrl-200-0.11''
                                 else Some ''ctrl-200-0.22'')\<rparr>) ex_committed =
        [\<lparr>name = ''A'', code = ''a2'', item_id = Some ''ctrl-200-0.11''\<rparr>,
         \<lparr>name = ''B'', code = ''b1'', item_id = Some ''ctrl-200-0.22''\<rparr>]"
    by (simp add: ex_committed_def ex_defs)
  have h: "set (map name [\<lparr>name = ''B'', code = ''b1'', item_id = Some ''ctrl-200-0.22''\<rparr>,
                          \<lparr>name = ''A'', code = ''a2'', item_id = None\<rparr>]) =
             set (map key ex_committed)
           \<and> (\<forall>a \<in> set ex_committed.
                \<forall>b \<in> set [\<lparr>name = ''B'', code = ''b1'', item_id = Some ''ctrl-200-0.22''\<rparr>,
                           \<lparr>name = ''A'', code = ''a2'', item_id = None\<rparr>].
                  name b = key a \<longrightarrow> fields_of b = content a)"
    by (auto simp: ex_committed_def ex_defs fields_of_def)
  note t = reconcile_idempotent[OF d, of ex_clock
      "\<lambda>a. if key a = ''A'' then Some ''ctrl-200-0.11'' else Some ''ctrl-200-0.22''"
      "[\<lparr>name = ''B'', code = ''b1'', item_id = Some ''ctrl-200-0.22''\<rparr>,
        \<lparr>name = ''A'', code = ''a2'', item_id = None\<rparr>]"]
  from t have 1: "smartUpdate ex_clock ex_committed
        [\<lparr>name = ''A'', code = ''a2'', item_id = Some ''ctrl-200-0.11''\<rparr>,
         \<lparr>name = ''B'', code = ''b1'', item_id = Some ''ctrl-200-0.22''\<rparr>] = ex_committed"
    unfolding m by (rule conjunct1)
  from t h have 2: "smartUpdate ex_clock ex_committed
        [\<lparr>name = ''B'', code = ''b1'', item_id = Some ''ctrl-200-0.22''\<rparr>,
         \<lparr>name = ''A'', code = ''a2'', item_id = None\<rparr>] = ex_committed"
    by blast
  from d 1 2 show ?thesis by blast
qed

lemma distinct_first_by_name: "distinct (map key (first_by_name xs))"
proof (induction xs rule: first_by_name.induct)
  case 1 show ?case by simp
next
  case (2 a as)
  have "key a \<notin> key ` set (first_by_name (filter (\<lambda>b. key b \<noteq> key a) as))"
    using set_first_by_name[of "filter (\<lambda>b. key b \<noteq> key a) as"] by auto
  with 2 show ?case by simp
qed

text \<open>
  Claim C10. When several existing artifacts have the same name, \<open>smartUpdate\<close> works
  as if only the first artifact of every name were there: the result is the
  reconciliation, as the source does it, of these first occurrences, and every later
  artifact of a name is dropped, whether the batch has that name or not.
\<close>

theorem later_duplicates_dropped:
  "smartUpdate clk existing newItems = smartUpdate clk (first_by_name existing) newItems
   \<and> smartUpdate clk existing newItems =
       reconcile_with spread_id clk (first_by_name existing) newItems"
  using first_by_name_distinct[OF distinct_first_by_name, of existing]
  by (simp add: smartUpdate_general)

theorem later_duplicates_dropped_witness:
  "first_by_name [ex_A, ex_B, ex_A_again] = [ex_A, ex_B]
   \<and> smartUpdate ex_clock [ex_A, ex_B, ex_A_again]
        [\<lparr>name = ''A'', code = ''a2'', item_id = Some ''ctrl-200-0.11''\<rparr>] =
       [\<lparr>ident = ''ctrl-200-0.11'', content = \<lparr>name = ''A'', code = ''a2''\<rparr>,
         history = [\<lparr>timestamp = 200, data = \<lparr>name = ''A'', code = ''a1''\<rparr>,
                     message = Some ''Auto-saved on generation''\<rparr>]\<rparr>]"
proof -
  have f: "first_by_name [ex_A, ex_B, ex_A_again] = [ex_A, ex_B]"
    by (simp add: ex_defs ex_A_again_def)
  have r: "reconcile_with spread_id ex_clock [ex_A, ex_B]
             [\<lparr>name = ''A'', code = ''a2'', item_id = Some ''ctrl-200-0.11''\<rparr>] =
       [\<lparr>ident = ''ctrl-200-0.11'', content = \<lparr>name = ''A'', code = ''a2''\<rparr>,
         history = [\<lparr>timestamp = 200, data = \<lparr>name = ''A'', code = ''a1''\<rparr>,
                     message = Some ''Auto-saved on generation''\<rparr>]\<rparr>]"
    by code_simp
  have s: "smartUpdate ex_clock [ex_A, ex_B, ex_A_again]
             [\<lparr>name = ''A'', code = ''a2'', item_id = Some ''ctrl-200-0.11''\<rparr>] =
           reconcile_with spread_id ex_clock (first_by_name [ex_A, ex_B, ex_A_again])
             [\<lparr>name = ''A'', code = ''a2'', item_id = Some ''ctrl-200-0.11''\<rparr>]"
    using later_duplicates_dropped[of ex_clock "[ex_A, ex_B, ex_A_again]"
        "[\<lparr>name = ''A'', code = ''a2'', item_id = Some ''ctrl-200-0.11''\<rparr>]"]
    by (rule conjunct2)
  show ?thesis unfolding s f r by simp
qed

text \<open>
  Whatever the collection was, the names of a reconciled collection are pairwise
  different: the uniqueness of the natural key is an invariant of reconciliation.
\<close>

lemma keys_smartUpdate:
  "map key (smartUpdate clk existing newItems) =
     filter (\<lambda>k. k \<in> set (map name newItems)) (map key (first_by_name existing)) @
     filter (\<lambda>k. k \<notin> set (map key existing)) (batch_keys newItems)"
proof -
  have "\<And>k b. batch_lookup newItems k = Some b \<Longrightarrow> name b = k"
    using batch_lookup_Some by blast
  then have "map key (reconcile_matched spread_id clk 0 (batch_lookup newItems)
                        (first_by_name existing)) =
      filter (\<lambda>k. batch_lookup newItems k \<noteq> None) (map key (first_by_name existing))"
    by (rule keys_reconcile_matched)
  then have m: "map key (reconcile_matched spread_id clk 0 (batch_lookup newItems)
                           (first_by_name existing)) =
      filter (\<lambda>k. k \<in> set (map name newItems)) (map key (first_by_name existing))"
    by (simp only: batch_lookup_dom)
  have n: "map name (unconsumed (first_by_name existing) newItems) =
      filter (\<lambda>k. k \<notin> set (map key existing)) (batch_keys newItems)"
    by (simp only: names_unconsumed keys_first_by_name)
  show ?thesis
    unfolding smartUpdate_general reconcile_with_def
    by (simp only: map_append m keys_brand_new n)
qed

lemma distinct_keys_smartUpdate: "distinct (map key (smartUpdate clk existing newItems))"
proof -
  have "set (map key (first_by_name existing)) = set (map key existing)"
    by (rule keys_first_by_name)
  then show ?thesis
    unfolding keys_smartUpdate
    using distinct_first_by_name[of existing] distinct_batch_keys[of newItems]
    by (auto simp: distinct_map_filter)
qed

section \<open>Proofs: commit and revert\<close>

lemma commit_item_committed: "committed a \<Longrightarrow> commit_item t msg a = a"
  by (simp add: committed_def commit_item_def split: list.splits)

lemma committed_commit_item: "committed (commit_item t msg a)"
  by (cases "history a") (simp_all add: committed_def commit_item_def)

lemma map_commit_committed:
  "list_all committed items \<Longrightarrow> map (commit_item t msg) items = items"
  by (induction items) (simp_all add: commit_item_committed)

lemma handleCommit_committed:
  "list_all committed items \<Longrightarrow> fst (handleCommit clk msg items) = items"
  by (simp add: handleCommit_def map_commit_committed)

lemma committed_handleCommit: "list_all committed (fst (handleCommit clk msg items))"
  by (simp add: handleCommit_def list_all_iff committed_commit_item)

text \<open>
  Claim C8. A commit on a collection in which the top history entry of every artifact
  already holds the current content returns the collection unchanged, with no new
  history entry; so does a commit on the empty collection. A second commit after a
  commit changes nothing, whatever its clock and message.
\<close>

theorem commit_noop:
  "(list_all committed items \<longrightarrow> fst (handleCommit clk msg items) = items)
   \<and> fst (handleCommit clk msg []) = ([] :: 'c artifact list)
   \<and> fst (handleCommit clk' msg' (fst (handleCommit clk msg items))) =
       fst (handleCommit clk msg items)"
  using handleCommit_committed[OF committed_handleCommit, of clk' msg' clk msg items]
  by (simp add: handleCommit_committed)

theorem commit_noop_witness:
  "list_all committed (fst (handleCommit ex_clock ''first'' [ex_A, ex_B]))
   \<and> fst (handleCommit ex_later ''second'' (fst (handleCommit ex_clock ''first'' [ex_A, ex_B]))) =
       [\<lparr>ident = ''A-100'', content = \<lparr>name = ''A'', code = ''a1''\<rparr>,
         history = [\<lparr>timestamp = 200, data = \<lparr>name = ''A'', code = ''a1''\<rparr>,
                     message = Some ''first''\<rparr>]\<rparr>,
        \<lparr>ident = ''B-100'', content = \<lparr>name = ''B'', code = ''b1''\<rparr>,
         history = [\<lparr>timestamp = 200, data = \<lparr>name = ''B'', code = ''b1''\<rparr>,
                     message = Some ''first''\<rparr>]\<rparr>]"
proof -
  have e: "fst (handleCommit ex_clock ''first'' [ex_A, ex_B]) =
       [\<lparr>ident = ''A-100'', content = \<lparr>name = ''A'', code = ''a1''\<rparr>,
         history = [\<lparr>timestamp = 200, data = \<lparr>name = ''A'', code = ''a1''\<rparr>,
                     message = Some ''first''\<rparr>]\<rparr>,
        \<lparr>ident = ''B-100'', content = \<lparr>name = ''B'', code = ''b1''\<rparr>,
         history = [\<lparr>timestamp = 200, data = \<lparr>name = ''B'', code = ''b1''\<rparr>,
                     message = Some ''first''\<rparr>]\<rparr>]"
    by (simp add: handleCommit_def commit_item_def ex_defs)
  have c: "list_all committed (fst (handleCommit ex_clock ''first'' [ex_A, ex_B]))"
    unfolding e by (simp add: committed_def)
  from commit_noop[of "fst (handleCommit ex_clock ''first'' [ex_A, ex_B])" ex_later "''second''"] c
  have "fst (handleCommit ex_later ''second'' (fst (handleCommit ex_clock ''first'' [ex_A, ex_B]))) =
        fst (handleCommit ex_clock ''first'' [ex_A, ex_B])"
    by blast
  with c e show ?thesis by simp
qed

lemma length_revert_items: "length (revert_items clk i t n items) = length items"
  by (induction items arbitrary: n) (auto split: option.splits)

lemma revert_items_nth:
  "k < length items \<Longrightarrow> ident (items ! k) = i \<Longrightarrow>
   find (\<lambda>h. timestamp h = t) (history (items ! k)) = Some e \<Longrightarrow>
   \<exists>j. revert_items clk i t n items ! k =
        \<lparr>ident = i, content = data e,
         history = \<lparr>timestamp = clk j, data = content (items ! k), message = Some ''Reverted''\<rparr>
                     # filter (\<lambda>h. timestamp h \<noteq> t) (history (items ! k))\<rparr>"
proof (induction items arbitrary: n k)
  case Nil then show ?case by simp
next
  case (Cons a items)
  show ?case
  proof (cases k)
    case 0
    with Cons.prems show ?thesis by auto
  next
    case (Suc k')
    with Cons.prems have p: "k' < length items" "ident (items ! k') = i"
      "find (\<lambda>h. timestamp h = t) (history (items ! k')) = Some e" by auto
    from Cons.IH[OF p] Suc show ?thesis by (auto split: option.splits)
  qed
qed

lemma find_first_split:
  "P e \<Longrightarrow> (\<And>h. h \<in> set newer \<Longrightarrow> \<not> P h) \<Longrightarrow> find P (newer @ e # older) = Some e"
  by (induction newer) simp_all

lemma filter_none: "(\<And>h. h \<in> set xs \<Longrightarrow> P h) \<Longrightarrow> filter P xs = xs"
  by (induction xs) simp_all

text \<open>
  Claim C3, as stated, fails. A revert looks the entry up by its timestamp and takes the
  first entry that has it, and it removes every entry that has it. Two entries of one
  millisecond share a timestamp: an update that replaces \<open>x\<close> by \<open>y\<close> and a commit in
  the same millisecond leave the history \<open>[commit y, auto-save x]\<close>, both entries with
  timestamp 2. The revert to the timestamp of the \<open>x\<close> entry finds the commit: the
  content stays \<open>y\<close>, and the \<open>x\<close> entry is removed without having been restored.
\<close>

theorem revert_same_timestamp_loses_snapshot:
  "run ex_ops_same_ms [] =
     [\<lparr>ident = ''ctrl-2-0.5'', content = \<lparr>name = ''A'', code = ''y''\<rparr>,
       history = [\<lparr>timestamp = 2, data = \<lparr>name = ''A'', code = ''y''\<rparr>, message = Some ''m''\<rparr>,
                  \<lparr>timestamp = 2, data = \<lparr>name = ''A'', code = ''x''\<rparr>,
                   message = Some ''Auto-saved on generation''\<rparr>]\<rparr>]
   \<and> fst (revertItem (\<lambda>k. 3) ''ctrl-2-0.5'' 2 (run ex_ops_same_ms [])) =
     [\<lparr>ident = ''ctrl-2-0.5'', content = \<lparr>name = ''A'', code = ''y''\<rparr>,
       history = [\<lparr>timestamp = 3, data = \<lparr>name = ''A'', code = ''y''\<rparr>,
                   message = Some ''Reverted''\<rparr>]\<rparr>]
   \<and> content (hd (fst (revertItem (\<lambda>k. 3) ''ctrl-2-0.5'' 2 (run ex_ops_same_ms [])))) \<noteq>
       \<lparr>name = ''A'', code = ''x''\<rparr>"
proof -
  have r: "run ex_ops_same_ms [] =
     [\<lparr>ident = ''ctrl-2-0.5'', content = \<lparr>name = ''A'', code = ''y''\<rparr>,
       history = [\<lparr>timestamp = 2, data = \<lparr>name = ''A'', code = ''y''\<rparr>, message = Some ''m''\<rparr>,
                  \<lparr>timestamp = 2, data = \<lparr>name = ''A'', code = ''x''\<rparr>,
                   message = Some ''Auto-saved on generation''\<rparr>]\<rparr>]"
    by code_simp
  show ?thesis unfolding r by (simp add: revertItem_def)
qed

text \<open>
  Claim C3, amended. When the entry with snapshot \<open>X\<close> is the first entry of the history
  that has its timestamp (it is when the timestamps of the history are pairwise different,
  and it is for the entry that an update has just put on top), reverting to that timestamp
  keeps the identifier, makes \<open>X\<close> the current content, puts a new entry on top that holds
  the content before the revert and the message \<open>Reverted\<close>, and removes the restored
  entry together with every older entry of the same timestamp; the newer entries stay.
\<close>

theorem revert_round_trip:
  assumes "k < length items"
    and "history (items ! k) = newer @ e # older"
    and "timestamp e \<notin> set (map timestamp newer)"
  shows "length (fst (revertItem clk (ident (items ! k)) (timestamp e) items)) = length items
     \<and> ident (fst (revertItem clk (ident (items ! k)) (timestamp e) items) ! k) = ident (items ! k)
     \<and> content (fst (revertItem clk (ident (items ! k)) (timestamp e) items) ! k) = data e
     \<and> (\<exists>j. history (fst (revertItem clk (ident (items ! k)) (timestamp e) items) ! k) =
              \<lparr>timestamp = clk j, data = content (items ! k), message = Some ''Reverted''\<rparr>
                # newer @ filter (\<lambda>h. timestamp h \<noteq> timestamp e) older)
     \<and> timestamp e \<notin> set (map timestamp
          (tl (history (fst (revertItem clk (ident (items ! k)) (timestamp e) items) ! k))))"
proof -
  have f: "find (\<lambda>h. timestamp h = timestamp e) (history (items ! k)) = Some e"
    unfolding assms(2) using assms(3) by (intro find_first_split) (auto simp: image_iff)
  have n: "filter (\<lambda>h. timestamp h \<noteq> timestamp e) newer = newer"
    using assms(3) by (intro filter_none) (auto simp: image_iff)
  from revert_items_nth[OF assms(1) refl f, of clk 0]
  obtain j where j: "revert_items clk (ident (items ! k)) (timestamp e) 0 items ! k =
        \<lparr>ident = ident (items ! k), content = data e,
         history = \<lparr>timestamp = clk j, data = content (items ! k), message = Some ''Reverted''\<rparr>
                     # filter (\<lambda>h. timestamp h \<noteq> timestamp e) (history (items ! k))\<rparr>" ..
  have h: "filter (\<lambda>h. timestamp h \<noteq> timestamp e) (history (items ! k)) =
           newer @ filter (\<lambda>h. timestamp h \<noteq> timestamp e) older"
    unfolding assms(2) by (simp add: n)
  have t: "timestamp e \<notin> set (map timestamp (newer @ filter (\<lambda>h. timestamp h \<noteq> timestamp e) older))"
    using assms(3) by auto
  show ?thesis
    using t by (auto simp: revertItem_def length_revert_items j h)
qed

theorem revert_round_trip_witness:
  "smartUpdate ex_clock [ex_A, ex_C]
     [\<lparr>name = ''A'', code = ''a1'', item_id = Some ''ctrl-200-0.11''\<rparr>,
      \<lparr>name = ''C'', code = ''c2'', item_id = Some ''ctrl-200-0.22''\<rparr>] = ex_reconciled
   \<and> history (ex_reconciled ! 1) =
       [] @ \<lparr>timestamp = 200, data = \<lparr>name = ''C'', code = ''c1''\<rparr>,
              message = Some ''Auto-saved on generation''\<rparr> # []
   \<and> fst (revertItem ex_later ''ctrl-200-0.22'' 200 ex_reconciled) =
       [ex_A,
        \<lparr>ident = ''ctrl-200-0.22'', content = \<lparr>name = ''C'', code = ''c1''\<rparr>,
         history = [\<lparr>timestamp = 300, data = \<lparr>name = ''C'', code = ''c2''\<rparr>,
                     message = Some ''Reverted''\<rparr>]\<rparr>]
   \<and> content (fst (revertItem ex_later ''ctrl-200-0.22'' 200 ex_reconciled) ! 1) =
       \<lparr>name = ''C'', code = ''c1''\<rparr>"
proof -
  have u: "smartUpdate ex_clock [ex_A, ex_C]
     [\<lparr>name = ''A'', code = ''a1'', item_id = Some ''ctrl-200-0.11''\<rparr>,
      \<lparr>name = ''C'', code = ''c2'', item_id = Some ''ctrl-200-0.22''\<rparr>] = ex_reconciled"
    by code_simp
  have k: "(1::nat) < length ex_reconciled" by (simp add: ex_reconciled_def)
  have f: "history (ex_reconciled ! 1) =
       [] @ \<lparr>timestamp = 200, data = \<lparr>name = ''C'', code = ''c1''\<rparr>,
              message = Some ''Auto-saved on generation''\<rparr> # []"
    by (simp add: ex_reconciled_def)
  have i: "ident (ex_reconciled ! 1) = ''ctrl-200-0.22''" by (simp add: ex_reconciled_def)
  have r: "fst (revertItem ex_later ''ctrl-200-0.22'' 200 ex_reconciled) =
       [ex_A,
        \<lparr>ident = ''ctrl-200-0.22'', content = \<lparr>name = ''C'', code = ''c1''\<rparr>,
         history = [\<lparr>timestamp = 300, data = \<lparr>name = ''C'', code = ''c2''\<rparr>,
                     message = Some ''Reverted''\<rparr>]\<rparr>]"
    by (simp add: revertItem_def ex_reconciled_def ex_defs ex_later_def)
  from revert_round_trip[OF k f, of ex_later] i
  have "content (fst (revertItem ex_later ''ctrl-200-0.22'' 200 ex_reconciled) ! 1) =
       \<lparr>name = ''C'', code = ''c1''\<rparr>"
    by simp
  with u f r show ?thesis by simp
qed

lemma revert_items_stale:
  "(\<And>a. a \<in> set items \<Longrightarrow> ident a = i \<Longrightarrow> t \<notin> timestamp ` set (history a)) \<Longrightarrow>
   revert_items clk i t n items = items"
proof (induction items)
  case Nil show ?case by simp
next
  case (Cons a items)
  have "find (\<lambda>h. timestamp h = t) (history a) = None" if "ident a = i"
    using Cons.prems[of a] that by (auto simp: find_None_iff)
  moreover have "revert_items clk i t n items = items" using Cons by simp
  ultimately show ?case by simp
qed

text \<open>
  Claim C5, as stated, fails: a revert to an identifier that the collection does not have
  changes nothing, but it shows the toast of a successful revert and no error.
\<close>

theorem revert_stale_reports_success:
  "revertItem ex_clock ''E-999'' 200 ex_reconciled =
     (ex_reconciled, (Success, ''Item reverted successfully!''))
   \<and> fst (snd (revertItem ex_clock ''E-999'' 200 ex_reconciled)) \<noteq> Error"
  by (simp add: revertItem_def ex_reconciled_def ex_defs)

text \<open>
  Claim C5, amended. A revert whose identifier is not in the collection, or whose
  timestamp is in no history of an artifact with that identifier, leaves every artifact
  as it was, content and history; no error is raised, the toast is the one of a
  successful revert.
\<close>

theorem revert_stale_unchanged:
  assumes "i \<notin> set (map ident items)
           \<or> (\<forall>a \<in> set items. ident a = i \<longrightarrow> t \<notin> set (map timestamp (history a)))"
  shows "revertItem clk i t items = (items, (Success, ''Item reverted successfully!''))"
proof -
  have "revert_items clk i t 0 items = items"
    using assms by (intro revert_items_stale) auto
  then show ?thesis by (simp add: revertItem_def)
qed

theorem revert_stale_unchanged_witness:
  "''E-999'' \<notin> set (map ident ex_reconciled)
   \<and> revertItem ex_later ''E-999'' 200 ex_reconciled =
       (ex_reconciled, (Success, ''Item reverted successfully!''))
   \<and> revertItem ex_later ''ctrl-200-0.22'' 150 ex_reconciled =
       (ex_reconciled, (Success, ''Item reverted successfully!''))"
proof -
  have a: "''E-999'' \<notin> set (map ident ex_reconciled)"
    by (simp add: ex_reconciled_def ex_defs)
  have b: "\<forall>a \<in> set ex_reconciled. ident a = ''ctrl-200-0.22'' \<longrightarrow> 150 \<notin> set (map timestamp (history a))"
    by (simp add: ex_reconciled_def ex_defs)
  from revert_stale_unchanged[of "''E-999''" ex_reconciled 200 ex_later] a
       revert_stale_unchanged[of "''ctrl-200-0.22''" ex_reconciled 150 ex_later] b
  show ?thesis by blast
qed

section \<open>Proofs: the history invariant\<close>





















section \<open>Proofs: handler groups\<close>

lemma endsWith_iff: "endsWith w suf = (\<exists>stem. w = stem @ suf)"
proof
  assume "endsWith w suf"
  then have "drop (length w - length suf) w = suf" by (simp add: endsWith_def)
  then have "w = take (length w - length suf) w @ suf"
    by (metis append_take_drop_id)
  then show "\<exists>stem. w = stem @ suf" ..
next
  assume "\<exists>stem. w = stem @ suf"
  then show "endsWith w suf" by (auto simp: endsWith_def)
qed

lemma endsWith_ies_s: "endsWith w ''ies'' \<Longrightarrow> endsWith w ''s''"
proof -
  assume "endsWith w ''ies''"
  then obtain stem where "w = stem @ ''ies''" unfolding endsWith_iff ..
  then have "w = (stem @ ''ie'') @ ''s''" by simp
  then show ?thesis unfolding endsWith_iff ..
qed

lemma slice_end_ies: "slice_end (stem @ ''ies'') 3 = stem"
  by (simp add: slice_end_def)

lemma slice_end_s: "slice_end (stem @ ''s'') 1 = stem"
  by (simp add: slice_end_def)

lemma lowerFirst_nonempty: "s \<noteq> [] \<Longrightarrow> lowerFirst s \<noteq> []"
  by (cases s) (simp_all add: lowerFirst_def)

text \<open>
  Claim C6, as stated, fails on a segment that ends in \<open>ss\<close>: the source drops the
  final \<open>s\<close> of \<open>address\<close>, where the rule of the claim leaves the segment unchanged.
\<close>

theorem singular_ss_differs:
  "getBaseNameFromEndpoint (endpoint (content ex_list_addresses)) = Some ''addres''
   \<and> singular_spec ''address'' = ''address''"
  by (simp add: ex_list_addresses_def getBaseNameFromEndpoint_def singular_spec_def
        startsWith_def endsWith_def slice_end_def)

text \<open>
  Claim C6, amended. For the first path segment that is not empty, not \<open>api\<close> and
  not a parameter: a segment ending in \<open>ies\<close> gets \<open>y\<close> for it; any other
  segment ending in \<open>s\<close> loses that \<open>s\<close>, also after another \<open>s\<close>; any other
  segment is unchanged. So the source agrees with the rule of the specification on every
  segment that does not end in \<open>ss\<close>. A non-empty result in lower case is then
  matched against the schema names without regard to case, and the endpoint goes to the
  handler group named after the first schema that matches.
\<close>

theorem base_name_singular:
  assumes "filter (\<lambda>p. p \<noteq> [] \<and> p \<noteq> ''api'' \<and> \<not> startsWith p '':'')
             (split_on (CHR ''/'') (endpoint (content a))) = part # rest"
  shows "(\<forall>stem. part = stem @ ''ies'' \<longrightarrow>
            getBaseNameFromEndpoint (endpoint (content a)) = Some (stem @ ''y''))
       \<and> (\<forall>stem. part = stem @ ''s'' \<and> \<not> endsWith part ''ies'' \<longrightarrow>
            getBaseNameFromEndpoint (endpoint (content a)) = Some stem)
       \<and> (\<not> endsWith part ''s'' \<longrightarrow>
            getBaseNameFromEndpoint (endpoint (content a)) = Some part)
       \<and> (\<not> endsWith part ''ss'' \<longrightarrow>
            getBaseNameFromEndpoint (endpoint (content a)) = Some (singular_spec part))
       \<and> (\<forall>b m. getBaseNameFromEndpoint (endpoint (content a)) = Some b \<and> b \<noteq> []
              \<and> toLowerCase b = b
              \<and> find (\<lambda>m. toLowerCase (name (content m)) = toLowerCase b) models = Some m
              \<and> name (content m) \<noteq> []
            \<longrightarrow> controllerName models a = lowerFirst (name (content m)) @ ''Controller.js'')"
proof (intro conjI allI impI)
  fix stem assume "part = stem @ ''ies''"
  then show "getBaseNameFromEndpoint (endpoint (content a)) = Some (stem @ ''y'')"
    using assms by (simp add: getBaseNameFromEndpoint_def endsWith_iff slice_end_ies)
next
  fix stem assume "part = stem @ ''s'' \<and> \<not> endsWith part ''ies''"
  then have p: "part = stem @ ''s''" and n: "\<not> endsWith part ''ies''" by auto
  have e: "endsWith part ''s''" unfolding endsWith_iff using p by blast
  have sl: "slice_end part 1 = stem" using p by (simp add: slice_end_def)
  show "getBaseNameFromEndpoint (endpoint (content a)) = Some stem"
    using assms n e sl by (simp add: getBaseNameFromEndpoint_def)
next
  assume "\<not> endsWith part ''s''"
  moreover have "endsWith part ''ies'' \<Longrightarrow> endsWith part ''s''"
    by (rule endsWith_ies_s)
  ultimately show "getBaseNameFromEndpoint (endpoint (content a)) = Some part"
    using assms by (auto simp: getBaseNameFromEndpoint_def)
next
  assume "\<not> endsWith part ''ss''"
  then show "getBaseNameFromEndpoint (endpoint (content a)) = Some (singular_spec part)"
    using assms by (simp add: getBaseNameFromEndpoint_def singular_spec_def)
next
  fix b m
  assume h: "getBaseNameFromEndpoint (endpoint (content a)) = Some b \<and> b \<noteq> []
              \<and> toLowerCase b = b
              \<and> find (\<lambda>m. toLowerCase (name (content m)) = toLowerCase b) models = Some m
              \<and> name (content m) \<noteq> []"
  then have l: "toLowerCase b = b" by blast
  from h have "find (\<lambda>m. toLowerCase (name (content m)) = toLowerCase b) models = Some m"
    by blast
  then have f: "find (\<lambda>m. toLowerCase (name (content m)) = b) models = Some m"
    unfolding l .
  from h f have "strategy1 models a = Some (lowerFirst (name (content m)))"
    by (simp add: strategy1_def)
  moreover have "lowerFirst (name (content m)) \<noteq> []" using h by (simp add: lowerFirst_nonempty)
  ultimately show "controllerName models a = lowerFirst (name (content m)) @ ''Controller.js''"
    by (simp add: controllerName_def controllerFileBaseName_def)
qed

theorem base_name_singular_witness:
  "getBaseNameFromEndpoint (endpoint (content ex_list_categories)) = Some ''category''
   \<and> controllerName [ex_Category] ex_list_categories = ''categoryController.js''"
proof -
  have p: "filter (\<lambda>p. p \<noteq> [] \<and> p \<noteq> ''api'' \<and> \<not> startsWith p '':'')
             (split_on (CHR ''/'') (endpoint (content ex_list_categories))) = ''categories'' # []"
    by (simp add: ex_list_categories_def startsWith_def)
  note t = base_name_singular[OF p, of "[ex_Category]"]
  from t have "''categories'' = ''categor'' @ ''ies'' \<longrightarrow>
      getBaseNameFromEndpoint (endpoint (content ex_list_categories)) = Some (''categor'' @ ''y'')"
    by blast
  then have b: "getBaseNameFromEndpoint (endpoint (content ex_list_categories)) = Some ''category''"
    by simp
  have l: "toLowerCase ''category'' = ''category''"
    by code_simp
  have f: "find (\<lambda>m. toLowerCase (name (content m)) = toLowerCase ''category'') [ex_Category] =
           Some ex_Category"
    by code_simp
  have n: "name (content ex_Category) \<noteq> []" by (simp add: ex_Category_def)
  from t b l f n
  have "controllerName [ex_Category] ex_list_categories =
        lowerFirst (name (content ex_Category)) @ ''Controller.js''"
    by blast
  moreover have "lowerFirst (name (content ex_Category)) @ ''Controller.js'' =
      ''categoryController.js''"
    by code_simp
  ultimately have "controllerName [ex_Category] ex_list_categories = ''categoryController.js''"
    by simp
  with b show ?thesis by simp
qed

section \<open>Proofs: dependency graph\<close>

lemma map_of_keyed_list:
  "map_of (map (\<lambda>n. (f n, n)) xs) k = find (\<lambda>n. f n = k) xs"
  by (induction xs) auto

lemma lookup_new_Map_by:
  "map_of (new_Map (map (\<lambda>n. (f n, n)) xs)) k = find (\<lambda>n. f n = k) (rev xs)"
  by (simp add: map_of_new_Map rev_map map_of_keyed_list)

lemma find_last_distinct:
  "distinct (map f xs) \<Longrightarrow> x \<in> set xs \<Longrightarrow> find (\<lambda>n. f n = f x) (rev xs) = Some x"
proof (induction xs rule: rev_induct)
  case Nil then show ?case by simp
next
  case (snoc y ys)
  then show ?case by (cases "x = y") (auto simp: image_iff)
qed

lemma find_in_set_Some:
  "x \<in> set xs \<Longrightarrow> \<exists>n. find (\<lambda>n. f n = f x) (rev xs) = Some n \<and> f n = f x"
proof -
  assume "x \<in> set xs"
  then have "find (\<lambda>n. f n = f x) (rev xs) \<noteq> None" by (auto simp: find_None_iff)
  then obtain n where n: "find (\<lambda>n. f n = f x) (rev xs) = Some n" by auto
  then have "f n = f x" by (auto dest: find_SomeD)
  with n show ?thesis by blast
qed

lemma source_node:
  assumes "distinct (map key routes)" and "r \<in> set routes"
  shows "map_of (new_Map (map (\<lambda>n. (label n, n)) (routeNodes routes))) (key r) =
         Some \<lparr>node_id = ident r, node_type = RouteNode, label = key r\<rparr>"
proof -
  let ?node = "\<lambda>r. \<lparr>node_id = ident r, node_type = RouteNode, label = key r\<rparr>"
  have d: "distinct (map label (routeNodes routes))"
    using assms(1) by (simp add: routeNodes_def comp_def)
  have m: "?node r \<in> set (routeNodes routes)" using assms(2) by (auto simp: routeNodes_def)
  from find_last_distinct[OF d m] show ?thesis by (simp add: lookup_new_Map_by)
qed

lemma target_node:
  assumes "a \<in> set live"
  shows "\<exists>n. map_of (new_Map (map (\<lambda>n. (node_id n, n)) (apiNodes live))) (ident a) = Some n
             \<and> node_id n = ident a"
proof -
  let ?node = "\<lambda>a. \<lparr>node_id = ident a, node_type = ApiNode,
               label = http_method (content a) @ '' '' @ endpoint (content a)\<rparr>"
  have m: "?node a \<in> set (apiNodes live)" using assms by (auto simp: apiNodes_def)
  from find_in_set_Some[OF m, of node_id] show ?thesis by (simp add: lookup_new_Map_by)
qed

lemma definition_edges_eq:
  "definition_edges live (new_Map (map (\<lambda>n. (node_id n, n)) (apiNodes live)))
       \<lparr>node_id = ident r, node_type = RouteNode, label = key r\<rparr> =
     statement_edges live r"
proof (rule ext)
  fix st :: "string \<times> string"
  obtain verb path where st: "st = (verb, path)" by (cases st)
  show "definition_edges live (new_Map (map (\<lambda>n. (node_id n, n)) (apiNodes live)))
       \<lparr>node_id = ident r, node_type = RouteNode, label = key r\<rparr> st =
     statement_edges live r st"
  proof (cases "find (\<lambda>a. http_method (content a) = toUpperCase verb \<and>
                      endpoint (content a) = path) live")
    case None
    then show ?thesis by (simp add: definition_edges_def statement_edges_def st)
  next
    case (Some a)
    then have "a \<in> set live" by (auto dest: find_SomeD)
    from target_node[OF this] obtain n where
      "map_of (new_Map (map (\<lambda>n. (node_id n, n)) (apiNodes live))) (ident a) = Some n"
      "node_id n = ident a" by blast
    with Some show ?thesis
      by (simp add: definition_edges_def statement_edges_def make_edge_def st)
  qed
qed

lemma route_api_edges_eq:
  assumes "distinct (map key routes)"
  shows "route_api_edges routes cs =
     concat (map (\<lambda>r. concat (map (statement_edges (allApis cs) r)
                                  (matchAll_routes 0 (code (content r))))) routes)"
proof -
  have "\<And>r. r \<in> set routes \<Longrightarrow>
     (case map_of (new_Map (map (\<lambda>n. (label n, n)) (routeNodes routes))) (key r) of
        None \<Rightarrow> []
      | Some sourceNode \<Rightarrow>
          concat (map (definition_edges (allApis cs)
                        (new_Map (map (\<lambda>n. (node_id n, n)) (apiNodes (allApis cs)))) sourceNode)
                    (matchAll_routes 0 (code (content r))))) =
     concat (map (statement_edges (allApis cs) r) (matchAll_routes 0 (code (content r))))"
    by (simp add: source_node[OF assms] definition_edges_eq)
  then show ?thesis
    unfolding route_api_edges_def Let_def
    by (intro arg_cong[where f=concat] map_cong) auto
qed

lemma lazy_to_quote_clean:
  "list_all (\<lambda>c. \<not> is_quote c \<and> \<not> line_terminator c) path \<Longrightarrow> is_quote q \<Longrightarrow>
   lazy_to_quote (path @ q # rest) = Some (path, Suc (length path))"
  by (induction path) auto

lemma lazy_to_quote_shape:
  "lazy_to_quote r = Some (p, k) \<Longrightarrow>
   \<exists>q rest. r = p @ q # rest \<and> is_quote q \<and> list_all (\<lambda>c. \<not> is_quote c \<and> \<not> line_terminator c) p \<and> k = Suc (length p)"
proof (induction r arbitrary: p k)
  case Nil then show ?case by simp
next
  case (Cons c cs)
  show ?case
  proof (cases "is_quote c")
    case True
    with Cons.prems have "p = []" "k = 1" by auto
    with True show ?thesis by auto
  next
    case False
    with Cons.prems obtain g j where g: "lazy_to_quote cs = Some (g, j)" "p = c # g" "k = Suc j"
      and nl: "\<not> line_terminator c"
      by (auto split: if_splits option.splits)
    from Cons.IH[OF g(1)] obtain q rest where
      "cs = g @ q # rest" "is_quote q" "list_all (\<lambda>c. \<not> is_quote c \<and> \<not> line_terminator c) g" "j = Suc (length g)" by blast
    with g False nl show ?thesis by auto
  qed
qed

lemma first_some_SomeD: "first_some f xs = Some y \<Longrightarrow> \<exists>x \<in> set xs. f x = Some y"
  by (induction xs) (auto split: option.splits)

lemma match_route_at_shape:
  assumes "match_route_at s = Some (v, p, n)"
  shows "\<exists>q1 q2 rest. v \<in> set route_verbs \<and> is_quote q1 \<and> is_quote q2 \<and> list_all (\<lambda>c. \<not> is_quote c \<and> \<not> line_terminator c) p
           \<and> s = ''router.'' @ v @ [CHR ''('', q1] @ p @ [q2] @ rest
           \<and> n = length v + length p + 10"
proof -
  let ?f = "\<lambda>verb.
             if startsWith (drop 7 s) verb then
               (case drop (7 + length verb) s of
                  p # q # r \<Rightarrow>
                    if p = CHR ''('' \<and> is_quote q then
                      (case lazy_to_quote r of
                         None \<Rightarrow> None
                       | Some (path, k) \<Rightarrow> Some (verb, path, 7 + length verb + 2 + k))
                    else None
                | _ \<Rightarrow> None)
             else None"
  from assms have sw: "startsWith s ''router.''" and fs: "first_some ?f route_verbs = Some (v, p, n)"
    by (auto simp: match_route_at_def split: if_splits)
  from first_some_SomeD[OF fs] obtain verb where verb: "verb \<in> set route_verbs"
    and fv: "?f verb = Some (v, p, n)" by blast
  from fv have "\<exists>q r k. startsWith (drop 7 s) verb
      \<and> drop (7 + length verb) s = CHR ''('' # q # r \<and> is_quote q
      \<and> lazy_to_quote r = Some (p, k) \<and> v = verb \<and> n = 7 + length verb + 2 + k"
    by (auto split: if_splits list.splits option.splits)
  then obtain q r k where sv: "startsWith (drop 7 s) v"
    and d: "drop (7 + length v) s = CHR ''('' # q # r" and q: "is_quote q"
    and l: "lazy_to_quote r = Some (p, k)" and v: "v = verb" and n: "n = 7 + length v + 2 + k"
    by blast
  from lazy_to_quote_shape[OF l] obtain q2 rest where
    r: "r = p @ q2 # rest" and q2: "is_quote q2" and cl: "list_all (\<lambda>c. \<not> is_quote c \<and> \<not> line_terminator c) p" and k: "k = Suc (length p)"
    by blast
  have "length ''router.'' = (7::nat)" by simp
  moreover from sw have "take (length ''router.'') s = ''router.''" by (simp only: startsWith_def)
  ultimately have t7: "take 7 s = ''router.''" by (simp only:)
  have tv: "take (length v) (drop 7 s) = v" using sv by (simp add: startsWith_def)
  have "s = take 7 s @ take (length v) (drop 7 s) @ drop (length v) (drop 7 s)"
    by (simp only: append_take_drop_id)
  also have "drop (length v) (drop 7 s) = drop (7 + length v) s" by (simp add: add.commute)
  finally have "s = ''router.'' @ v @ [CHR ''('', q] @ p @ [q2] @ rest"
    by (simp only: t7 tv d r) simp
  with verb v q q2 cl n k show ?thesis by auto
qed

lemma match_route_at_quoted:
  assumes "verb \<in> set route_verbs" and "is_quote q1" and "is_quote q2" and "list_all (\<lambda>c. \<not> is_quote c \<and> \<not> line_terminator c) path"
  shows "match_route_at (''router.'' @ verb @ [CHR ''('', q1] @ path @ [q2] @ rest) =
           Some (verb, path, length verb + length path + 10)"
proof -
  note l = lazy_to_quote_clean[OF assms(4) assms(3)]
  from assms(1) consider "verb = ''get''" | "verb = ''post''" | "verb = ''put''"
    | "verb = ''delete''" | "verb = ''patch''"
    by (auto simp: route_verbs_def)
  then show ?thesis
  proof cases
    case 1 then show ?thesis
      by (simp add: match_route_at_def startsWith_def route_verbs_def assms(2) l)
  next
    case 2 then show ?thesis
      by (simp add: match_route_at_def startsWith_def route_verbs_def assms(2) l)
  next
    case 3 then show ?thesis
      by (simp add: match_route_at_def startsWith_def route_verbs_def assms(2) l)
  next
    case 4 then show ?thesis
      by (simp add: match_route_at_def startsWith_def route_verbs_def assms(2) l)
  next
    case 5 then show ?thesis
      by (simp add: match_route_at_def startsWith_def route_verbs_def assms(2) l)
  qed
qed

lemma match_route_at_iff:
  "(match_route_at s = Some (v, p, n)) =
   (\<exists>q1 q2 rest. v \<in> set route_verbs \<and> is_quote q1 \<and> is_quote q2 \<and> list_all (\<lambda>c. \<not> is_quote c \<and> \<not> line_terminator c) p
        \<and> s = ''router.'' @ v @ [CHR ''('', q1] @ p @ [q2] @ rest
        \<and> n = length v + length p + 10)"
  using match_route_at_shape[of s v p n] match_route_at_quoted[of v _ _ p] by blast

lemma drop_length_append: "drop (length xs) (xs @ ys) = ys"
  by simp

lemma matchAll_routes_drop: "matchAll_routes k s = matchAll_routes 0 (drop k s)"
proof (induction k arbitrary: s)
  case 0 show ?case by simp
next
  case (Suc k)
  show ?case
  proof (cases s)
    case Nil then show ?thesis by simp
  next
    case (Cons c cs)
    with Suc[of cs] show ?thesis by simp
  qed
qed

lemma matchAll_routes_match:
  assumes "match_route_at s = Some (v, p, n)"
  shows "matchAll_routes 0 s = (v, p) # matchAll_routes 0 (drop n s)"
proof -
  from match_route_at_shape[OF assms] obtain q1 q2 rest where
    sh: "s = ''router.'' @ v @ [CHR ''('', q1] @ p @ [q2] @ rest" and n: "n = length v + length p + 10"
    by blast
  from sh have "s \<noteq> []" by simp
  then obtain c cs where s: "s = c # cs" by (cases s) simp_all
  from n obtain m where m: "n = Suc m" by (cases n) simp_all
  have "matchAll_routes 0 (c # cs) = (v, p) # matchAll_routes m cs"
    using assms by (simp add: s m)
  also have "matchAll_routes m cs = matchAll_routes 0 (drop m cs)"
    by (rule matchAll_routes_drop)
  finally show ?thesis by (simp add: s m)
qed

lemma matchAll_routes_unmatched:
  "unmatched_prefix gap rest \<Longrightarrow> matchAll_routes 0 (gap @ rest) = matchAll_routes 0 rest"
  by (induction gap) simp_all

lemma matchAll_routes_statement:
  assumes "unmatched_prefix gap (''router.'' @ verb @ [CHR ''('', q1] @ path @ [q2] @ rest)"
    and "verb \<in> set route_verbs" and "is_quote q1" and "is_quote q2" and "list_all (\<lambda>c. \<not> is_quote c \<and> \<not> line_terminator c) path"
  shows "matchAll_routes 0 (gap @ ''router.'' @ verb @ [CHR ''('', q1] @ path @ [q2] @ rest) =
           (verb, path) # matchAll_routes 0 rest"
proof -
  let ?st = "''router.'' @ verb @ [CHR ''('', q1] @ path @ [q2]"
  have m: "match_route_at (?st @ rest) = Some (verb, path, length verb + length path + 10)"
    using match_route_at_quoted[OF assms(2-5), of rest] by simp
  have l: "length ?st = length verb + length path + 10" by simp
  have "matchAll_routes 0 (?st @ rest) = (verb, path) # matchAll_routes 0 (drop (length ?st) (?st @ rest))"
    using matchAll_routes_match[OF m] by (simp only: l)
  then have "matchAll_routes 0 (?st @ rest) = (verb, path) # matchAll_routes 0 rest"
    by (simp only: drop_length_append)
  then show ?thesis
    using matchAll_routes_unmatched[OF assms(1)] by simp
qed

lemma matchAll_routes_sound:
  "(v, p) \<in> set (matchAll_routes k s) \<Longrightarrow>
   \<exists>pre post n. s = pre @ post \<and> match_route_at post = Some (v, p, n)"
proof (induction k s rule: matchAll_routes.induct)
  case (1 skip) then show ?case by simp
next
  case (2 skip c cs)
  then obtain pre post n where "cs = pre @ post" "match_route_at post = Some (v, p, n)"
    by auto
  then have "c # cs = (c # pre) @ post \<and> match_route_at post = Some (v, p, n)" by simp
  then show ?case by blast
next
  case (3 c cs)
  show ?case
  proof (cases "match_route_at (c # cs)")
    case None
    with 3 obtain pre post n where "cs = pre @ post" "match_route_at post = Some (v, p, n)"
      by auto
    then have "c # cs = (c # pre) @ post \<and> match_route_at post = Some (v, p, n)" by simp
    then show ?thesis by blast
  next
    case (Some m)
    obtain v' p' len where m: "m = (v', p', len)" by (cases m)
    show ?thesis
    proof (cases "(v, p) = (v', p')")
      case True
      with Some m have "c # cs = [] @ (c # cs) \<and> match_route_at (c # cs) = Some (v, p, len)"
        by simp
      then show ?thesis by blast
    next
      case False
      with "3.prems" Some m have "(v, p) \<in> set (matchAll_routes (len - 1) cs)" by auto
      from "3.IH"(2)[OF Some m[symmetric] refl this]
      obtain pre post n where "cs = pre @ post" "match_route_at post = Some (v, p, n)"
        by blast
      then have "c # cs = (c # pre) @ post \<and> match_route_at post = Some (v, p, n)" by simp
      then show ?thesis by blast
    qed
  qed
qed

lemma matchAll_routes_occurrence:
  assumes "(v, p) \<in> set (matchAll_routes 0 s)"
  shows "\<exists>pre q1 q2 rest. s = pre @ ''router.'' @ v @ [CHR ''('', q1] @ p @ [q2] @ rest
           \<and> v \<in> set route_verbs \<and> is_quote q1 \<and> is_quote q2 \<and> list_all (\<lambda>c. \<not> is_quote c \<and> \<not> line_terminator c) p"
proof -
  from matchAll_routes_sound[OF assms] obtain pre post n where
    s: "s = pre @ post" and m: "match_route_at post = Some (v, p, n)" by blast
  from match_route_at_shape[OF m] s show ?thesis by blast
qed

lemma statement_edges_member:
  assumes "e \<in> set (statement_edges live r (v, p))"
  shows "\<exists>a \<in> set live. http_method (content a) = toUpperCase v \<and> endpoint (content a) = p
           \<and> e = \<lparr>edge_id = ident r @ ''-'' @ ident a, source = ident r, target = ident a\<rparr>"
proof -
  show ?thesis
  proof (cases "find (\<lambda>a. http_method (content a) = toUpperCase v \<and>
                      endpoint (content a) = p) live")
    case None
    with assms show ?thesis by (simp add: statement_edges_def)
  next
    case (Some a)
    with assms have "e = \<lparr>edge_id = ident r @ ''-'' @ ident a, source = ident r, target = ident a\<rparr>"
      by (simp add: statement_edges_def)
    with find_SomeD[OF Some] show ?thesis by blast
  qed
qed

lemma route_api_edges_member:
  assumes "distinct (map key routes)" and "e \<in> set (route_api_edges routes cs)"
  shows "\<exists>r \<in> set routes. \<exists>a \<in> set (allApis cs). \<exists>v p.
           (v, p) \<in> set (matchAll_routes 0 (code (content r)))
           \<and> http_method (content a) = toUpperCase v \<and> endpoint (content a) = p
           \<and> e = \<lparr>edge_id = ident r @ ''-'' @ ident a, source = ident r, target = ident a\<rparr>"
proof -
  from assms(2) obtain r m where r: "r \<in> set routes"
    and m: "m \<in> set (matchAll_routes 0 (code (content r)))"
    and e: "e \<in> set (statement_edges (allApis cs) r m)"
    unfolding route_api_edges_eq[OF assms(1)] by auto
  obtain v p where vp: "m = (v, p)" by (cases m)
  from statement_edges_member[OF e[unfolded vp]] r m vp show ?thesis by blast
qed

lemma statement_edges_facts:
  "length (statement_edges live r st) \<le> 1
       \<and> (list_all (\<lambda>a. \<not> (http_method (content a) = toUpperCase (fst st)
                               \<and> endpoint (content a) = snd st)) live
          \<longrightarrow> statement_edges live r st = [])
       \<and> (\<not> list_all (\<lambda>a. \<not> (http_method (content a) = toUpperCase (fst st)
                                 \<and> endpoint (content a) = snd st)) live
          \<longrightarrow> (\<exists>a \<in> set live. http_method (content a) = toUpperCase (fst st)
                   \<and> endpoint (content a) = snd st
                   \<and> statement_edges live r st =
                       [\<lparr>edge_id = ident r @ ''-'' @ ident a, source = ident r, target = ident a\<rparr>]))"
proof (intro conjI impI)
  show "length (statement_edges live r st) \<le> 1"
    by (simp add: statement_edges_def split: option.splits)
next
  assume "list_all (\<lambda>a. \<not> (http_method (content a) = toUpperCase (fst st)
                               \<and> endpoint (content a) = snd st)) live"
  then have "find (\<lambda>a. http_method (content a) = toUpperCase (fst st) \<and>
                      endpoint (content a) = snd st) live = None"
    by (simp add: find_None_iff list_all_iff)
  then show "statement_edges live r st = []" by (simp add: statement_edges_def)
next
  assume "\<not> list_all (\<lambda>a. \<not> (http_method (content a) = toUpperCase (fst st)
                                 \<and> endpoint (content a) = snd st)) live"
  then have "find (\<lambda>a. http_method (content a) = toUpperCase (fst st) \<and>
                      endpoint (content a) = snd st) live \<noteq> None"
    by (auto simp: find_None_iff list_all_iff)
  then obtain a where a: "find (\<lambda>a. http_method (content a) = toUpperCase (fst st) \<and>
                      endpoint (content a) = snd st) live = Some a" by auto
  from find_SomeD[OF a] a
  show "\<exists>a \<in> set live. http_method (content a) = toUpperCase (fst st)
                   \<and> endpoint (content a) = snd st
                   \<and> statement_edges live r st =
                       [\<lparr>edge_id = ident r @ ''-'' @ ident a, source = ident r, target = ident a\<rparr>]"
    by (intro bexI[of _ a]) (simp_all add: statement_edges_def)
qed

text \<open>
  Claim C7, as stated, fails. The pattern ends the path at the next quote character of
  any of the three kinds. The file that \<^verbatim>\<open>generateRoutes\<close> writes for an endpoint with the
  path \<^verbatim>\<open>/api/users"v2"\<close> has the one route definition
  \<^verbatim>\<open>router.get('/api/users"v2"', userController.listUsersV2);\<close>, and the extraction reads
  the path \<^verbatim>\<open>/api/users\<close> from it: the graph gets an edge from this router to the live
  endpoint \<^verbatim>\<open>GET /api/users\<close>, which the router does not register. The edge goes to
  an endpoint whose path is not the path of the statement, and the edges are no subset of
  the registrations.
\<close>

theorem route_edge_to_unregistered_endpoint:
  "code (content ex_route_quote) =
     ex_header @ route_statement ''get'' (''/api/users'' @ [CHR 0x22] @ ''v2'' @ [CHR 0x22]) @
     '', userController.listUsersV2);'' @ [CHR 0x0A, CHR 0x0A] @ ''module.exports = router;''
   \<and> matchAll_routes 0 (code (content ex_route_quote)) = [(''get'', ''/api/users'')]
   \<and> route_api_edges [ex_route_quote] ex_collections =
       [\<lparr>edge_id = ''route-2-api-3'', source = ''route-2'', target = ''api-3''\<rparr>]
   \<and> ident ex_list_users = ''api-3''
   \<and> endpoint (content ex_list_users) = ''/api/users''"
proof -
  have 1: "code (content ex_route_quote) =
     ex_header @ route_statement ''get'' (''/api/users'' @ [CHR 0x22] @ ''v2'' @ [CHR 0x22]) @
     '', userController.listUsersV2);'' @ [CHR 0x0A, CHR 0x0A] @ ''module.exports = router;''"
    by (simp add: ex_route_quote_def fullCode_def routeDefinition_def ex_header_def
          route_statement_def)
  have 2: "matchAll_routes 0 (code (content ex_route_quote)) = [(''get'', ''/api/users'')]"
    by code_simp
  have 3: "route_api_edges [ex_route_quote] ex_collections =
       [\<lparr>edge_id = ''route-2-api-3'', source = ''route-2'', target = ''api-3''\<rparr>]"
    by code_simp
  have 4: "ident ex_list_users = ''api-3'' \<and> endpoint (content ex_list_users) = ''/api/users''"
    by (simp add: ex_list_users_def)
  from 1 2 3 4 show ?thesis by blast
qed

text \<open>
  Claim C7, amended. For routers with pairwise different names, the edges from routers to
  endpoints are, router by router and match by match of the route pattern in the router's
  content, the edges of \<open>statement_edges\<close>: one edge from that router to the first live
  endpoint whose verb equals the upper-cased verb of the match and whose path equals its
  path, and no edge when there is no such endpoint. The matches are found wherever they
  are in the content: the search passes a stretch of text in which no match starts, and a
  text \<^verbatim>\<open>router.<verb>(<quote><path><quote>\<close> with one of the five verbs, any of the three
  quote characters on either side and a path free of quotes and line ends gives the match
  \<open>(verb, path)\<close>, after which the search goes on behind the closing quote; a text is a
  match at its first character exactly when it begins in this way. In the other
  direction, every match that the search returns is such a text somewhere in the content,
  and every edge comes from a match and goes to a live endpoint with the verb and the path
  of the match (the path as the pattern reads it, up to the next quote character of any
  kind; it is the path written in the statement when the written path has no quote
  character in it). The extraction is a total function: it has no failing case.
\<close>

theorem route_edges_by_statement:
  assumes "distinct (map key routes)"
  shows "route_api_edges routes cs =
           concat (map (\<lambda>r. concat (map (statement_edges (allApis cs) r)
                                        (matchAll_routes 0 (code (content r))))) routes)
       \<and> (unmatched_prefix gap (''router.'' @ verb @ [CHR ''('', q1] @ path @ [q2] @ rest)
            \<and> verb \<in> set route_verbs \<and> is_quote q1 \<and> is_quote q2 \<and> list_all (\<lambda>c. \<not> is_quote c \<and> \<not> line_terminator c) path
          \<longrightarrow> matchAll_routes 0 (gap @ ''router.'' @ verb @ [CHR ''('', q1] @ path @ [q2] @ rest) =
                (verb, path) # matchAll_routes 0 rest)
       \<and> (unmatched_prefix gap [] \<longrightarrow> matchAll_routes 0 gap = [])
       \<and> (match_route_at s = Some (v, p, n)) =
           (\<exists>q1 q2 rest. v \<in> set route_verbs \<and> is_quote q1 \<and> is_quote q2 \<and> list_all (\<lambda>c. \<not> is_quote c \<and> \<not> line_terminator c) p
              \<and> s = ''router.'' @ v @ [CHR ''('', q1] @ p @ [q2] @ rest
              \<and> n = length v + length p + 10)
       \<and> ((v, p) \<in> set (matchAll_routes 0 s)
          \<longrightarrow> (\<exists>pre q1 q2 rest. s = pre @ ''router.'' @ v @ [CHR ''('', q1] @ p @ [q2] @ rest
                 \<and> v \<in> set route_verbs \<and> is_quote q1 \<and> is_quote q2 \<and> list_all (\<lambda>c. \<not> is_quote c \<and> \<not> line_terminator c) p))
       \<and> (e \<in> set (route_api_edges routes cs)
          \<longrightarrow> (\<exists>r \<in> set routes. \<exists>a \<in> set (allApis cs). \<exists>v p.
                 (v, p) \<in> set (matchAll_routes 0 (code (content r)))
                 \<and> http_method (content a) = toUpperCase v \<and> endpoint (content a) = p
                 \<and> e = \<lparr>edge_id = ident r @ ''-'' @ ident a, source = ident r, target = ident a\<rparr>))
       \<and> length (statement_edges live r st) \<le> 1
       \<and> (list_all (\<lambda>a. \<not> (http_method (content a) = toUpperCase (fst st)
                               \<and> endpoint (content a) = snd st)) live
          \<longrightarrow> statement_edges live r st = [])
       \<and> (\<not> list_all (\<lambda>a. \<not> (http_method (content a) = toUpperCase (fst st)
                                 \<and> endpoint (content a) = snd st)) live
          \<longrightarrow> (\<exists>a \<in> set live. http_method (content a) = toUpperCase (fst st)
                   \<and> endpoint (content a) = snd st
                   \<and> statement_edges live r st =
                       [\<lparr>edge_id = ident r @ ''-'' @ ident a, source = ident r, target = ident a\<rparr>]))"
proof -
  have 1: "route_api_edges routes cs =
           concat (map (\<lambda>r. concat (map (statement_edges (allApis cs) r)
                                        (matchAll_routes 0 (code (content r))))) routes)"
    using assms by (rule route_api_edges_eq)
  have 2: "unmatched_prefix gap (''router.'' @ verb @ [CHR ''('', q1] @ path @ [q2] @ rest)
            \<and> verb \<in> set route_verbs \<and> is_quote q1 \<and> is_quote q2 \<and> list_all (\<lambda>c. \<not> is_quote c \<and> \<not> line_terminator c) path
          \<longrightarrow> matchAll_routes 0 (gap @ ''router.'' @ verb @ [CHR ''('', q1] @ path @ [q2] @ rest) =
                (verb, path) # matchAll_routes 0 rest"
    using matchAll_routes_statement[of gap verb q1 path q2 rest] by blast
  have 3: "unmatched_prefix gap [] \<longrightarrow> matchAll_routes 0 gap = []"
    using matchAll_routes_unmatched[of gap "[]"] by simp
  have 4: "(match_route_at s = Some (v, p, n)) =
           (\<exists>q1 q2 rest. v \<in> set route_verbs \<and> is_quote q1 \<and> is_quote q2 \<and> list_all (\<lambda>c. \<not> is_quote c \<and> \<not> line_terminator c) p
              \<and> s = ''router.'' @ v @ [CHR ''('', q1] @ p @ [q2] @ rest
              \<and> n = length v + length p + 10)"
    by (rule match_route_at_iff)
  have 5: "(v, p) \<in> set (matchAll_routes 0 s)
          \<longrightarrow> (\<exists>pre q1 q2 rest. s = pre @ ''router.'' @ v @ [CHR ''('', q1] @ p @ [q2] @ rest
                 \<and> v \<in> set route_verbs \<and> is_quote q1 \<and> is_quote q2 \<and> list_all (\<lambda>c. \<not> is_quote c \<and> \<not> line_terminator c) p)"
    using matchAll_routes_occurrence[of v p s] by blast
  have 6: "e \<in> set (route_api_edges routes cs)
          \<longrightarrow> (\<exists>r \<in> set routes. \<exists>a \<in> set (allApis cs). \<exists>v p.
                 (v, p) \<in> set (matchAll_routes 0 (code (content r)))
                 \<and> http_method (content a) = toUpperCase v \<and> endpoint (content a) = p
                 \<and> e = \<lparr>edge_id = ident r @ ''-'' @ ident a, source = ident r, target = ident a\<rparr>)"
    using route_api_edges_member[OF assms, of e cs] by blast
  note 7 = statement_edges_facts[of live r st]
  from 1 2 3 4 5 6 7 show ?thesis by (intro conjI) (elim conjE; assumption)+
qed

theorem route_edges_by_statement_witness:
  "distinct (map key [ex_route])
   \<and> code (content ex_route) =
       ex_header @ ''router.'' @ ''get'' @ [CHR ''('', CHR 0x27] @ ''/api/users'' @ [CHR 0x27] @
       ('', userController.listUsers);'' @ [CHR 0x0A]) @
       ''router.'' @ ''delete'' @ [CHR ''('', CHR 0x27] @ ''/api/users/:id'' @ [CHR 0x27] @ ex_footer
   \<and> matchAll_routes 0 (code (content ex_route)) =
       [(''get'', ''/api/users''), (''delete'', ''/api/users/:id'')]
   \<and> route_api_edges [ex_route] ex_collections =
       [\<lparr>edge_id = ''route-1-api-3'', source = ''route-1'', target = ''api-3''\<rparr>]"
proof -
  let ?s2 = "''router.'' @ ''delete'' @ [CHR ''('', CHR 0x27] @ ''/api/users/:id'' @ [CHR 0x27] @ ex_footer"
  let ?g1 = "'', userController.listUsers);'' @ [CHR 0x0A]"
  let ?s1 = "''router.'' @ ''get'' @ [CHR ''('', CHR 0x27] @ ''/api/users'' @ [CHR 0x27] @ (?g1 @ ?s2)"
  have d: "distinct (map key [ex_route])" by simp
  have c: "code (content ex_route) = ex_header @ ?s1"
    by (simp add: ex_route_def fullCode_def routeDefinition_def ex_header_def ex_footer_def)
  have q: "is_quote (CHR 0x27)" by (simp add: is_quote_def)
  have v: "''get'' \<in> set route_verbs" "''delete'' \<in> set route_verbs"
    by (simp_all add: route_verbs_def)
  have p: "list_all (\<lambda>c. \<not> is_quote c \<and> \<not> line_terminator c) ''/api/users''" "list_all (\<lambda>c. \<not> is_quote c \<and> \<not> line_terminator c) ''/api/users/:id''"
    by (simp_all add: is_quote_def line_terminator_def)
  have u0: "unmatched_prefix ex_header ?s1" by code_simp
  have u1: "unmatched_prefix ?g1 ?s2" by code_simp
  have u2: "unmatched_prefix ex_footer []" by code_simp
  note t = route_edges_by_statement[OF d]
  from t[of _ ex_header "''get''" "CHR 0x27" "''/api/users''" "CHR 0x27" "?g1 @ ?s2"] u0 v(1) q p(1)
  have m0: "matchAll_routes 0 (ex_header @ ?s1) = (''get'', ''/api/users'') # matchAll_routes 0 (?g1 @ ?s2)"
    by blast
  from t[of _ ?g1 "''delete''" "CHR 0x27" "''/api/users/:id''" "CHR 0x27" ex_footer] u1 v(2) q p(2)
  have m1: "matchAll_routes 0 (?g1 @ ?s2) = (''delete'', ''/api/users/:id'') # matchAll_routes 0 ex_footer"
    by blast
  from t[of _ ex_footer] u2
  have m2: "matchAll_routes 0 ex_footer = []"
    by blast
  have m: "matchAll_routes 0 (code (content ex_route)) =
       [(''get'', ''/api/users''), (''delete'', ''/api/users/:id'')]"
    by (simp only: c m0 m1 m2)
  have e: "concat (map (\<lambda>r. concat (map (statement_edges (allApis ex_collections) r)
                                        (matchAll_routes 0 (code (content r))))) [ex_route]) =
       [\<lparr>edge_id = ''route-1-api-3'', source = ''route-1'', target = ''api-3''\<rparr>]"
    by code_simp
  from t[of ex_collections] e
  have r: "route_api_edges [ex_route] ex_collections =
       [\<lparr>edge_id = ''route-1-api-3'', source = ''route-1'', target = ''api-3''\<rparr>]"
    by simp
  from d c m r show ?thesis by simp
qed

section \<open>Proofs: endpoint collections\<close>















end
